theory Spec2Isabelle
  imports Main "HOL-Library.AList" "HOL-Library.Word"
begin

section \<open>The virtual file system of VFS.py\<close>

text \<open>
  A shallow embedding of the class \<open>VirtualFileSystem\<close> (file \<open>VFS.py\<close>).

  \<^item> Python dictionaries are insertion-ordered association lists with distinct keys:
    \<open>d[k] = v\<close> is \<open>AList.update\<close> (a present key keeps its position, a new one is
    appended), \<open>del d[k]\<close> is \<open>AList.delete\<close>, \<open>d[k]\<close> is \<open>map_of\<close> with
    \<open>KeyError\<close> for a missing key.
  \<^item> The nested dictionaries of the directory tree are objects with identity:
    \<open>current_dir\<close> and the values of \<open>open_files\<close> are references to them. They live in
    an explicit store \<open>heap\<close>, a list of nodes addressed by position; a new node is
    appended, nothing is ever freed.
  \<^item> A Python \<open>str\<close> is a \<open>string\<close> whose characters are the code points below 256;
    \<open>len\<close> counts code points and \<open>encode\<close> is UTF-8 (one byte below 128, two above).
  \<^item> \<open>disk_space\<close> is a \<open>bytearray\<close>: a list of bytes whose length slice assignment
    can change.
  \<^item> An uncaught exception ends the program (the main loop has no handler); an
    operation returns \<open>Inl\<close> of the exception, or \<open>Inr\<close> of the returned value and
    the state after it.
  \<^item> What \<open>print\<close> writes is not part of the state; the two printing methods return
    the data they print.
  \<^item> A reference in Python always leads to an object. An address outside the store
    gives the error \<open>BadRef\<close>, which is there to make the functions total: no
    well-formed state has such an address.
\<close>

subsection \<open>Python values\<close>

type_synonym byte = "8 word"
type_synonym addr = nat

datatype error = KeyError | TypeError | ValueError | RecursionError | BadRef

datatype result = Str string | Names "string list"

datatype node = File string | Dir "(string \<times> addr) list"

record account =
  username :: string
  password :: string
  FAT :: addr

record vfs =
  current_user :: "string option"
  root :: "(string \<times> account) list"
  current_dir :: "addr option"
  open_files :: "(string \<times> addr) list"
  path :: "string list"
  disk_space :: "byte list"
  fat_table :: "(string \<times> nat \<times> nat) list"
  next_free_space :: nat
  heap :: "node list"

text \<open>\<open>xs[a:b]\<close> for indices that are not negative.\<close>

definition py_slice :: "'a list \<Rightarrow> nat \<Rightarrow> nat \<Rightarrow> 'a list" where
  "py_slice xs a b = drop a (take b xs)"

text \<open>\<open>xs[:k]\<close>; a negative \<open>k\<close> counts from the end.\<close>

definition py_prefix :: "'a list \<Rightarrow> int \<Rightarrow> 'a list" where
  "py_prefix xs k = (if k < 0 then take (nat (int (length xs) + k)) xs else take (nat k) xs)"

text \<open>
  \<open>xs[a:b] = ys\<close> for indices that are not negative: both are clipped to the length,
  an empty or inverted slice inserts at \<open>a\<close>, and the length changes by
  \<open>len(ys)\<close> minus the length of the slice.
\<close>

definition py_set_slice :: "'a list \<Rightarrow> nat \<Rightarrow> nat \<Rightarrow> 'a list \<Rightarrow> 'a list" where
  "py_set_slice xs a b ys =
     (let lo = min a (length xs); hi = max lo (min b (length xs))
      in take lo xs @ ys @ drop hi xs)"

text \<open>\<open>str.encode()\<close>: UTF-8 of the code points below 256.\<close>

definition encode_char :: "char \<Rightarrow> byte list" where
  "encode_char c =
     (let n = (of_char c :: nat)
      in if n < 128 then [of_nat n] else [of_nat (192 + n div 64), of_nat (128 + n mod 64)])"

definition encode :: "string \<Rightarrow> byte list" where
  "encode s = concat (map encode_char s)"

text \<open>\<open>str.isspace\<close>, \<open>str.lower\<close>, \<open>str.split()\<close> and \<open>" ".join\<close> on these code points.\<close>

definition isspace :: "char \<Rightarrow> bool" where
  "isspace c =
     (let n = (of_char c :: nat)
      in (9 \<le> n \<and> n \<le> 13) \<or> (28 \<le> n \<and> n \<le> 32) \<or> n = 133 \<or> n = 160)"

definition lower_char :: "char \<Rightarrow> char" where
  "lower_char c =
     (let n = (of_char c :: nat)
      in if (65 \<le> n \<and> n \<le> 90) \<or> (192 \<le> n \<and> n \<le> 222 \<and> n \<noteq> 215)
         then char_of (n + 32) else c)"

definition lower :: "string \<Rightarrow> string" where
  "lower s = map lower_char s"

fun split_acc :: "string \<Rightarrow> string \<Rightarrow> string list" where
  "split_acc cur [] = (if cur = [] then [] else [cur])"
| "split_acc cur (c # cs) =
     (if isspace c then (if cur = [] then split_acc [] cs else cur # split_acc [] cs)
      else split_acc (cur @ [c]) cs)"

definition split :: "string \<Rightarrow> string list" where
  "split s = split_acc [] s"

fun join :: "string list \<Rightarrow> string" where
  "join [] = []"
| "join [x] = x"
| "join (x # y # ys) = x @ '' '' @ join (y # ys)"

text \<open>The f-string \<open>'{name}'\<close>.\<close>

definition quoted :: "string \<Rightarrow> string" where
  "quoted name = CHR 0x27 # name @ [CHR 0x27]"

subsection \<open>The store\<close>

definition heap_get :: "node list \<Rightarrow> addr \<Rightarrow> node option" where
  "heap_get h a = (if a < length h then Some (h ! a) else None)"

text \<open>\<open>self.current_dir["children"]\<close>, with the address of the directory.\<close>

definition current_children :: "vfs \<Rightarrow> error + (addr \<times> (string \<times> addr) list)" where
  "current_children s =
     (case current_dir s of
        None \<Rightarrow> Inl TypeError
      | Some d \<Rightarrow>
          (case heap_get (heap s) d of
             None \<Rightarrow> Inl BadRef
           | Some (File c) \<Rightarrow> Inl KeyError
           | Some (Dir ch) \<Rightarrow> Inr (d, ch)))"

text \<open>\<open>item["type"] == "dir"\<close> for the node at an address.\<close>

definition is_dir :: "node list \<Rightarrow> addr \<Rightarrow> bool" where
  "is_dir h a = (case heap_get h a of Some (Dir ch) \<Rightarrow> True | _ \<Rightarrow> False)"

subsection \<open>The initial state\<close>

definition init :: vfs where
  "init = \<lparr> current_user = None, root = [], current_dir = None, open_files = [],
            path = [], disk_space = replicate (1024 * 1024) 0, fat_table = [],
            next_free_space = 0, heap = [] \<rparr>"

subsection \<open>Reports\<close>

text \<open>
  \<open>_build_file_paths\<close>: the recursion follows the tree; \<open>fuel\<close> bounds its depth, and
  running out of it is Python's \<open>RecursionError\<close>. \<open>show_fat_table\<close> gives it as much
  fuel as the store has nodes, which is enough for every tree (lemma \<open>build_returns\<close>);
  the interpreter's own limit on the depth of calls, a resource of the machine like its
  memory, is not modelled. The second function is the \<open>for\<close> loop over the children,
  \<open>acc\<close> the dictionary \<open>file_paths\<close>.
\<close>

fun build_file_paths :: "nat \<Rightarrow> node list \<Rightarrow> addr \<Rightarrow> string \<Rightarrow> error + (string \<times> string) list"
  and build_items :: "nat \<Rightarrow> node list \<Rightarrow> (string \<times> addr) list \<Rightarrow> string \<Rightarrow>
        (string \<times> string) list \<Rightarrow> error + (string \<times> string) list" where
  "build_file_paths 0 h a current_path = Inl RecursionError"
| "build_file_paths (Suc fuel) h a current_path =
     (case heap_get h a of
        None \<Rightarrow> Inl BadRef
      | Some (File c) \<Rightarrow> Inl KeyError
      | Some (Dir ch) \<Rightarrow> build_items fuel h ch current_path [])"
| "build_items fuel h [] current_path acc = Inr acc"
| "build_items fuel h ((name, item) # rest) current_path acc =
     (let p = current_path @ ''/'' @ name
      in case heap_get h item of
           None \<Rightarrow> Inl BadRef
         | Some (File c) \<Rightarrow> build_items fuel h rest current_path (AList.update name p acc)
         | Some (Dir ch) \<Rightarrow>
             (case build_file_paths fuel h item p of
                Inl e \<Rightarrow> Inl e
              | Inr sub \<Rightarrow>
                  build_items fuel h rest current_path
                    (foldl (\<lambda>m (k, v). AList.update k v m) acc sub)))"

text \<open>\<open>show_fat_table\<close> returns the rows it prints: name, path, start, end.\<close>

definition show_fat_table :: "vfs \<Rightarrow> error + (string \<times> string \<times> nat \<times> nat) list" where
  "show_fat_table s =
     (case current_user s of
        None \<Rightarrow> Inl KeyError
      | Some u \<Rightarrow>
          (case map_of (root s) u of
             None \<Rightarrow> Inl KeyError
           | Some acct \<Rightarrow>
               (case build_file_paths (length (heap s)) (heap s) (FAT acct) [] of
                  Inl e \<Rightarrow> Inl e
                | Inr file_paths \<Rightarrow>
                    Inr (map (\<lambda>(filename, start, end).
                           (filename,
                            (case map_of file_paths filename of
                               Some p \<Rightarrow> p | None \<Rightarrow> ''Unknown''),
                            start, end)) (fat_table s)))))"

text \<open>\<open>display_disk_usage\<close> returns the two numbers it prints.\<close>

definition display_disk_usage :: "vfs \<Rightarrow> nat \<times> nat" where
  "display_disk_usage s =
     (sum_list (map (\<lambda>(filename, start, end). length (py_slice (disk_space s) start end))
                  (fat_table s)),
      length (disk_space s))"

subsection \<open>Accounts\<close>

definition register :: "vfs \<Rightarrow> string \<Rightarrow> string \<Rightarrow> error + (result \<times> vfs)" where
  "register s uname pw =
     (if uname \<in> fst ` set (root s) then Inr (Str ''User already exists.'', s)
      else Inr (Str (''User '' @ quoted uname @ '' registered successfully.''),
                s\<lparr> root := AList.update uname
                              \<lparr> username = uname, password = pw, FAT = length (heap s) \<rparr>
                              (root s),
                   heap := heap s @ [Dir []] \<rparr>))"

definition login :: "vfs \<Rightarrow> string \<Rightarrow> string \<Rightarrow> error + (result \<times> vfs)" where
  "login s uname pw =
     (case map_of (root s) uname of
        None \<Rightarrow> Inr (Str ''Login failed.'', s)
      | Some acct \<Rightarrow>
          if password acct = pw
          then Inr (Str (''User '' @ quoted uname @ '' logged in successfully.''),
                    s\<lparr> current_user := Some uname, current_dir := Some (FAT acct),
                       path := [] \<rparr>)
          else Inr (Str ''Login failed.'', s))"

text \<open>\<open>if self.current_user:\<close> is false for \<open>None\<close> and for the empty string.\<close>

definition logout :: "vfs \<Rightarrow> error + (result \<times> vfs)" where
  "logout s =
     (case current_user s of
        None \<Rightarrow> Inr (Str ''No user currently logged in.'', s)
      | Some user \<Rightarrow>
          if user = [] then Inr (Str ''No user currently logged in.'', s)
          else Inr (Str (''User '' @ quoted user @ '' logged out successfully.''),
                    s\<lparr> current_user := None, current_dir := None, path := [] \<rparr>))"

subsection \<open>Files\<close>

definition dir :: "vfs \<Rightarrow> error + (result \<times> vfs)" where
  "dir s =
     (case current_children s of
        Inl e \<Rightarrow> Inl e
      | Inr (d, ch) \<Rightarrow> Inr (Names (map fst ch), s))"

definition create :: "vfs \<Rightarrow> string \<Rightarrow> error + (result \<times> vfs)" where
  "create s filename =
     (case current_children s of
        Inl e \<Rightarrow> Inl e
      | Inr (d, ch) \<Rightarrow>
          if filename \<notin> fst ` set ch
          then Inr (Str (''File '' @ quoted filename @ '' created.''),
                    s\<lparr> heap := (heap s)[d := Dir (AList.update filename (length (heap s)) ch)]
                                 @ [File []],
                       fat_table := AList.update filename
                                      (next_free_space s, next_free_space s) (fat_table s) \<rparr>)
          else Inr (Str ''File already exists.'', s))"

definition delete :: "vfs \<Rightarrow> string \<Rightarrow> error + (result \<times> vfs)" where
  "delete s filename =
     (case current_children s of
        Inl e \<Rightarrow> Inl e
      | Inr (d, ch) \<Rightarrow>
          if filename \<in> fst ` set ch
          then (case map_of (fat_table s) filename of
                  None \<Rightarrow> Inl KeyError
                | Some (file_start, file_end) \<Rightarrow>
                    if file_end < file_start then Inl ValueError
                    else
                      (let s' = s\<lparr> heap := (heap s)[d := Dir (AList.delete filename ch)],
                                    disk_space := py_set_slice (disk_space s) file_start file_end
                                                    (replicate (file_end - file_start) 0),
                                    next_free_space := file_start,
                                    fat_table := AList.delete filename (fat_table s) \<rparr>
                       in case show_fat_table s' of
                            Inl e \<Rightarrow> Inl e
                          | Inr rows \<Rightarrow> Inr (Str (''File '' @ quoted filename @ '' deleted.''), s')))
          else Inr (Str ''File not found.'', s))"

definition "open" :: "vfs \<Rightarrow> string \<Rightarrow> error + (result \<times> vfs)" where
  "open s filename =
     (case current_children s of
        Inl e \<Rightarrow> Inl e
      | Inr (d, ch) \<Rightarrow>
          (case map_of ch filename of
             Some a \<Rightarrow>
               if filename \<notin> fst ` set (open_files s)
               then Inr (Str (''File '' @ quoted filename @ '' opened.''),
                         s\<lparr> open_files := AList.update filename a (open_files s) \<rparr>)
               else Inr (Str ''File not found or already opened.'', s)
           | None \<Rightarrow> Inr (Str ''File not found or already opened.'', s)))"

definition close :: "vfs \<Rightarrow> string \<Rightarrow> error + (result \<times> vfs)" where
  "close s filename =
     (if filename \<in> fst ` set (open_files s)
      then Inr (Str (''File '' @ quoted filename @ '' closed.''),
                s\<lparr> open_files := AList.delete filename (open_files s) \<rparr>)
      else Inr (Str ''File not opened.'', s))"

definition read :: "vfs \<Rightarrow> string \<Rightarrow> error + (result \<times> vfs)" where
  "read s filename =
     (case map_of (open_files s) filename of
        None \<Rightarrow> Inr (Str ''File not opened.'', s)
      | Some a \<Rightarrow>
          (case heap_get (heap s) a of
             None \<Rightarrow> Inl BadRef
           | Some (Dir ch) \<Rightarrow> Inl KeyError
           | Some (File c) \<Rightarrow> Inr (Str c, s)))"

definition "write" :: "vfs \<Rightarrow> string \<Rightarrow> string \<Rightarrow> error + (result \<times> vfs)" where
  "write s filename content =
     (case map_of (open_files s) filename of
        None \<Rightarrow> Inr (Str ''File not opened.'', s)
      | Some a \<Rightarrow>
          (case map_of (fat_table s) filename of
             None \<Rightarrow> Inl KeyError
           | Some (file_start, file_end) \<Rightarrow>
               (let new_end = min (file_end + length content) (length (disk_space s))
                in case heap_get (heap s) a of
                     None \<Rightarrow> Inl BadRef
                   | Some (Dir ch) \<Rightarrow> Inl KeyError
                   | Some (File c) \<Rightarrow>
                       Inr (Str ''Content written to file.'',
                            s\<lparr> disk_space := py_set_slice (disk_space s) file_start new_end
                                  (encode (py_prefix content (int new_end - int file_start))),
                               heap := (heap s)[a := File (c @ content)],
                               fat_table := AList.update filename (file_start, new_end)
                                              (fat_table s),
                               next_free_space := new_end \<rparr>))))"

subsection \<open>Directories\<close>

text \<open>The loop of \<open>_update_current_dir\<close>, from the directory at \<open>a\<close>.\<close>

fun walk :: "node list \<Rightarrow> addr \<Rightarrow> string list \<Rightarrow> error + addr" where
  "walk h a [] = Inr a"
| "walk h a (d # ds) =
     (case heap_get h a of
        None \<Rightarrow> Inl BadRef
      | Some (File c) \<Rightarrow> Inl KeyError
      | Some (Dir ch) \<Rightarrow>
          (case map_of ch d of None \<Rightarrow> Inl KeyError | Some c \<Rightarrow> walk h c ds))"

definition update_current_dir :: "vfs \<Rightarrow> error + vfs" where
  "update_current_dir s =
     (case current_user s of
        None \<Rightarrow> Inl KeyError
      | Some u \<Rightarrow>
          (case map_of (root s) u of
             None \<Rightarrow> Inl KeyError
           | Some acct \<Rightarrow>
               (case walk (heap s) (FAT acct) (path s) of
                  Inl e \<Rightarrow> Inl e
                | Inr d \<Rightarrow> Inr (s\<lparr> current_dir := Some d \<rparr>))))"

definition cd :: "vfs \<Rightarrow> string \<Rightarrow> error + (result \<times> vfs)" where
  "cd s dirname =
     (if dirname = ''..''
      then (if path s \<noteq> []
            then (case update_current_dir (s\<lparr> path := butlast (path s) \<rparr>) of
                    Inl e \<Rightarrow> Inl e
                  | Inr s' \<Rightarrow> Inr (Str ''Returned to the parent directory.'', s'))
            else Inr (Str ''Already at the root directory.'', s))
      else (case current_children s of
              Inl e \<Rightarrow> Inl e
            | Inr (d, ch) \<Rightarrow>
                (case map_of ch dirname of
                   None \<Rightarrow> Inr (Str ''Directory not found.'', s)
                 | Some a \<Rightarrow>
                     if is_dir (heap s) a
                     then (case update_current_dir (s\<lparr> path := path s @ [dirname] \<rparr>) of
                             Inl e \<Rightarrow> Inl e
                           | Inr s' \<Rightarrow>
                               Inr (Str (''Changed directory to '' @ quoted dirname @ ''.''), s'))
                     else Inr (Str ''Directory not found.'', s))))"

definition rd :: "vfs \<Rightarrow> string \<Rightarrow> error + (result \<times> vfs)" where
  "rd s dirname =
     (case current_children s of
        Inl e \<Rightarrow> Inl e
      | Inr (d, ch) \<Rightarrow>
          (case map_of ch dirname of
             None \<Rightarrow> Inr (Str ''Directory not found or is a file.'', s)
           | Some a \<Rightarrow>
               if is_dir (heap s) a
               then Inr (Str (''Directory '' @ quoted dirname @ '' deleted.''),
                         s\<lparr> heap := (heap s)[d := Dir (AList.delete dirname ch)] \<rparr>)
               else Inr (Str ''Directory not found or is a file.'', s)))"

definition md :: "vfs \<Rightarrow> string \<Rightarrow> error + (result \<times> vfs)" where
  "md s dirname =
     (case current_children s of
        Inl e \<Rightarrow> Inl e
      | Inr (d, ch) \<Rightarrow>
          if dirname \<notin> fst ` set ch
          then Inr (Str (''Directory '' @ quoted dirname @ '' created.''),
                    s\<lparr> heap := (heap s)[d := Dir (AList.update dirname (length (heap s)) ch)]
                                 @ [Dir []] \<rparr>)
          else Inr (Str ''Directory already exists.'', s))"

subsection \<open>The dispatcher\<close>

definition process_command :: "vfs \<Rightarrow> string \<Rightarrow> error + (result \<times> vfs)" where
  "process_command s command =
     (let args = split command
      in if args = [] then Inr (Str ''No command entered.'', s)
         else
           (let cmd = lower (hd args); n = length args
            in if cmd = ''diskusage''
                 then (case display_disk_usage s of (used_space, total_space) \<Rightarrow> Inr (Str [], s))
               else if cmd = ''showfat''
                 then (case show_fat_table s of Inl e \<Rightarrow> Inl e | Inr rows \<Rightarrow> Inr (Str [], s))
               else if cmd = ''register'' \<and> n = 3 then register s (args ! 1) (args ! 2)
               else if cmd = ''login'' \<and> n = 3 then login s (args ! 1) (args ! 2)
               else if cmd = ''logout'' then logout s
               else if cmd = ''dir'' then dir s
               else if cmd = ''create'' \<and> n = 2 then create s (args ! 1)
               else if cmd = ''del'' \<and> n = 2 then delete s (args ! 1)
               else if cmd = ''open'' \<and> n = 2 then open s (args ! 1)
               else if cmd = ''close'' \<and> n = 2 then close s (args ! 1)
               else if cmd = ''read'' \<and> n = 2 then read s (args ! 1)
               else if cmd = ''write'' \<and> n \<ge> 3 then write s (args ! 1) (join (drop 2 args))
               else if cmd = ''cd'' \<and> n = 2 then cd s (args ! 1)
               else if cmd = ''md'' \<and> n = 2 then md s (args ! 1)
               else if cmd = ''rd'' \<and> n = 2 then rd s (args ! 1)
               else Inr (Str ''Invalid command or incorrect number of arguments.'', s)))"

text \<open>
  The main loop on the lines that \<open>input\<close> returns, up to \<open>exit\<close> or the last line
  given: the responses printed and the state reached.
\<close>

fun main_loop :: "vfs \<Rightarrow> string list \<Rightarrow> error + (result list \<times> vfs)" where
  "main_loop s [] = Inr ([], s)"
| "main_loop s (command # rest) =
     (if lower command = ''exit'' then Inr ([], s)
      else case process_command s command of
             Inl e \<Rightarrow> Inl e
           | Inr (response, s') \<Rightarrow>
               (case main_loop s' rest of
                  Inl e \<Rightarrow> Inl e
                | Inr (responses, s'') \<Rightarrow> Inr (response # responses, s'')))"

text \<open>The states the program can be in between two commands.\<close>

inductive reachable :: "vfs \<Rightarrow> bool" where
  reachable_init: "reachable init"
| reachable_step: "reachable s \<Longrightarrow> process_command s command = Inr (r, s') \<Longrightarrow> reachable s'"

subsection \<open>Well-formed states\<close>

text \<open>
  What every reachable state satisfies. In the store a directory has distinct names and
  its children were allocated after it and exist; every account has a directory;
  every open file is in the store; and either nobody is logged in, with no working
  directory and an empty path, or the working directory is the directory that the path
  leads to from the root of the user who is logged in.
\<close>

definition heap_ok :: "node list \<Rightarrow> bool" where
  "heap_ok h \<longleftrightarrow>
     (\<forall>a \<in> {0..<length h}.
        case h ! a of
          File c \<Rightarrow> True
        | Dir ch \<Rightarrow> distinct (map fst ch) \<and> (\<forall>c \<in> snd ` set ch. a < c \<and> c < length h))"

definition session_ok :: "vfs \<Rightarrow> bool" where
  "session_ok s \<longleftrightarrow>
     (case current_user s of
        None \<Rightarrow> current_dir s = None \<and> path s = []
      | Some u \<Rightarrow>
          (case map_of (root s) u of
             None \<Rightarrow> False
           | Some acct \<Rightarrow>
               (case walk (heap s) (FAT acct) (path s) of
                  Inl e \<Rightarrow> False
                | Inr d \<Rightarrow> current_dir s = Some d \<and> is_dir (heap s) d)))"

definition well_formed :: "vfs \<Rightarrow> bool" where
  "well_formed s \<longleftrightarrow>
     heap_ok (heap s) \<and>
     distinct (map fst (root s)) \<and>
     (\<forall>acct \<in> snd ` set (root s). is_dir (heap s) (FAT acct)) \<and>
     distinct (map fst (open_files s)) \<and>
     (\<forall>a \<in> snd ` set (open_files s). a < length (heap s)) \<and>
     distinct (map fst (fat_table s)) \<and>
     session_ok s"

subsection \<open>The allocation table as the specification describes it\<close>

text \<open>Two half-open ranges share a byte.\<close>

definition overlap :: "nat \<times> nat \<Rightarrow> nat \<times> nat \<Rightarrow> bool" where
  "overlap r r' \<longleftrightarrow> max (fst r) (fst r') < min (snd r) (snd r')"

text \<open>Every record lies in the buffer: \<open>0 \<le> start \<le> end \<le> disk size\<close>.\<close>

definition fat_bounds :: "vfs \<Rightarrow> bool" where
  "fat_bounds s \<longleftrightarrow>
     (\<forall>(filename, start, end) \<in> set (fat_table s).
        start \<le> end \<and> end \<le> length (disk_space s))"

text \<open>The invariant of the specification: the bounds, and no two files share a byte.\<close>

definition fat_invariant :: "vfs \<Rightarrow> bool" where
  "fat_invariant s \<longleftrightarrow>
     fat_bounds s \<and>
     (\<forall>(f, r) \<in> set (fat_table s). \<forall>(g, r') \<in> set (fat_table s).
        f \<noteq> g \<longrightarrow> \<not> overlap r r')"

subsection \<open>Some states of a session\<close>

text \<open>
  The state after \<open>register u p\<close> and \<open>login u p\<close>, and the state after
  \<open>create f\<close>, \<open>open f\<close> and \<open>write f ab\<close> in it.
\<close>

definition logged_in :: vfs where
  "logged_in =
     \<lparr> current_user = Some ''u'',
       root = [(''u'', \<lparr> username = ''u'', password = ''p'', FAT = 0 \<rparr>)],
       current_dir = Some 0, open_files = [], path = [],
       disk_space = replicate (1024 * 1024) 0, fat_table = [],
       next_free_space = 0, heap = [Dir []] \<rparr>"

definition with_file :: vfs where
  "with_file =
     \<lparr> current_user = Some ''u'',
       root = [(''u'', \<lparr> username = ''u'', password = ''p'', FAT = 0 \<rparr>)],
       current_dir = Some 0, open_files = [(''f'', 1)], path = [],
       disk_space = [97, 98] @ replicate 1048574 0, fat_table = [(''f'', 0, 2)],
       next_free_space = 2, heap = [Dir [(''f'', 1)], File ''ab''] \<rparr>"

text \<open>The state after one more command, \<open>write f cd\<close>, in \<open>with_file\<close>.\<close>

definition rewritten :: vfs where
  "rewritten =
     \<lparr> current_user = Some ''u'',
       root = [(''u'', \<lparr> username = ''u'', password = ''p'', FAT = 0 \<rparr>)],
       current_dir = Some 0, open_files = [(''f'', 1)], path = [],
       disk_space = [99, 100] @ replicate 1048572 0, fat_table = [(''f'', 0, 4)],
       next_free_space = 4, heap = [Dir [(''f'', 1)], File ''abcd''] \<rparr>"

text \<open>The state after \<open>md d\<close> and \<open>cd d\<close> in \<open>logged_in\<close>.\<close>

definition in_subdir :: vfs where
  "in_subdir =
     \<lparr> current_user = Some ''u'',
       root = [(''u'', \<lparr> username = ''u'', password = ''p'', FAT = 0 \<rparr>)],
       current_dir = Some 1, open_files = [], path = [''d''],
       disk_space = replicate (1024 * 1024) 0, fat_table = [],
       next_free_space = 0, heap = [Dir [(''d'', 1)], Dir []] \<rparr>"

text \<open>
  The state after \<open>create f\<close>, \<open>create g\<close>, \<open>open f\<close>, \<open>open g\<close>, \<open>write f ab\<close>
  and \<open>write g cd\<close> in \<open>logged_in\<close>.
\<close>

definition two_files :: vfs where
  "two_files =
     \<lparr> current_user = Some ''u'',
       root = [(''u'', \<lparr> username = ''u'', password = ''p'', FAT = 0 \<rparr>)],
       current_dir = Some 0, open_files = [(''f'', 1), (''g'', 2)], path = [],
       disk_space = [99, 100] @ replicate 1048574 0,
       fat_table = [(''f'', 0, 2), (''g'', 0, 2)],
       next_free_space = 2,
       heap = [Dir [(''f'', 1), (''g'', 2)], File ''ab'', File ''cd''] \<rparr>"

text \<open>
  The state after \<open>create f\<close>, \<open>open f\<close>, \<open>write f aa...a\<close> (524289 letters),
  \<open>create g\<close> and \<open>write f x\<close> in \<open>logged_in\<close>: the second \<open>write\<close> replaced the
  524290 bytes of the slice by one byte. Then the state after \<open>open g\<close> and
  \<open>write g y\<close>.
\<close>

definition shrunk :: vfs where
  "shrunk =
     \<lparr> current_user = Some ''u'',
       root = [(''u'', \<lparr> username = ''u'', password = ''p'', FAT = 0 \<rparr>)],
       current_dir = Some 0, open_files = [(''f'', 1)], path = [],
       disk_space = [120] @ replicate 524286 0,
       fat_table = [(''f'', 0, 524290), (''g'', 524289, 524289)],
       next_free_space = 524290,
       heap = [Dir [(''f'', 1), (''g'', 2)], File (replicate 524289 CHR ''a'' @ ''x''),
               File []] \<rparr>"

definition inverted :: vfs where
  "inverted =
     \<lparr> current_user = Some ''u'',
       root = [(''u'', \<lparr> username = ''u'', password = ''p'', FAT = 0 \<rparr>)],
       current_dir = Some 0, open_files = [(''f'', 1), (''g'', 2)], path = [],
       disk_space = [120] @ replicate 524286 0,
       fat_table = [(''f'', 0, 524290), (''g'', 524289, 524287)],
       next_free_space = 524287,
       heap = [Dir [(''f'', 1), (''g'', 2)], File (replicate 524289 CHR ''a'' @ ''x''),
               File ''y''] \<rparr>"

subsection \<open>Runs in which every file is written once\<close>

text \<open>
  A command that is not a \<open>write\<close>, or that writes ASCII text to a file whose record
  is still empty; and the states reached by such commands.
\<close>

definition ascii :: "string \<Rightarrow> bool" where
  "ascii t \<longleftrightarrow> (\<forall>c \<in> set t. (of_char c :: nat) < 128)"

definition first_ascii_write :: "vfs \<Rightarrow> string \<Rightarrow> bool" where
  "first_ascii_write s command \<longleftrightarrow>
     (let args = split command
      in args \<noteq> [] \<and> lower (hd args) = ''write'' \<and> 3 \<le> length args \<longrightarrow>
           ascii (join (drop 2 args)) \<and>
           (\<forall>(start, end) \<in> set_option (map_of (fat_table s) (args ! 1)). start = end))"

inductive reachable_once :: "vfs \<Rightarrow> bool" where
  reachable_once_init: "reachable_once init"
| reachable_once_step:
    "reachable_once s \<Longrightarrow> first_ascii_write s command \<Longrightarrow>
     process_command s command = Inr (r, s') \<Longrightarrow> reachable_once s'"

section \<open>Evaluating the program\<close>

lemmas eval_defs = process_command_def split_def isspace_def lower_def lower_char_def
  register_def init_def quoted_def login_def md_def delete_def current_children_def heap_get_def
  logout_def create_def open_def close_def read_def write_def cd_def rd_def dir_def

lemma logged_in_run:
  "main_loop init [''register u p'', ''login u p''] =
     Inr ([Str (''User '' @ quoted ''u'' @ '' registered successfully.''),
           Str (''User '' @ quoted ''u'' @ '' logged in successfully.'')], logged_in)"
  by (simp add: eval_defs logged_in_def)

lemma with_file_run:
  "main_loop logged_in [''create f'', ''open f'', ''write f ab''] =
     Inr ([Str (''File '' @ quoted ''f'' @ '' created.''),
           Str (''File '' @ quoted ''f'' @ '' opened.''),
           Str ''Content written to file.''], with_file)"
  by (simp add: eval_defs logged_in_def with_file_def py_set_slice_def py_prefix_def
      encode_def encode_char_def)

lemma reachable_main_loop:
  "reachable s \<Longrightarrow> main_loop s commands = Inr (rs, s') \<Longrightarrow> reachable s'"
proof (induction commands arbitrary: s rs)
  case Nil
  then show ?case by simp
next
  case (Cons c cs)
  show ?case
  proof (cases "lower c = ''exit''")
    case True
    with Cons.prems show ?thesis by simp
  next
    case False
    with Cons.prems obtain r s1 rs1 where
      "process_command s c = Inr (r, s1)" "main_loop s1 cs = Inr (rs1, s')"
      by (auto split: sum.splits)
    with Cons.prems(1) Cons.IH show ?thesis
      by (blast intro: reachable_step)
  qed
qed

lemma reachable_logged_in: "reachable logged_in"
  using reachable_main_loop [OF reachable_init logged_in_run] .

lemma reachable_with_file: "reachable with_file"
  using reachable_main_loop [OF reachable_logged_in with_file_run] .

section \<open>The store and the paths in it\<close>

lemma heap_okD:
  assumes "heap_ok h" and "a < length h" and "h ! a = Dir ch"
  shows "distinct (map fst ch)" and "\<And>c. c \<in> snd ` set ch \<Longrightarrow> a < c \<and> c < length h"
  using assms unfolding heap_ok_def by (force split: node.splits)+

lemma heap_okI:
  assumes "\<And>a ch. a < length h \<Longrightarrow> h ! a = Dir ch \<Longrightarrow>
             distinct (map fst ch) \<and> (\<forall>c \<in> snd ` set ch. a < c \<and> c < length h)"
  shows "heap_ok h"
  unfolding heap_ok_def using assms by (auto split: node.splits)

lemma map_of_snd_mem: "map_of ch x = Some c \<Longrightarrow> c \<in> snd ` set ch"
  by (metis image_eqI map_of_SomeD snd_conv)

lemma heap_get_Some: "heap_get h a = Some n \<longleftrightarrow> a < length h \<and> h ! a = n"
  by (auto simp: heap_get_def)

lemma is_dir_iff: "is_dir h a \<longleftrightarrow> (\<exists>ch. a < length h \<and> h ! a = Dir ch)"
  by (auto simp: is_dir_def heap_get_def split: node.splits)

lemma walk_le:
  "heap_ok h \<Longrightarrow> walk h a p = Inr d \<Longrightarrow> a \<le> d"
proof (induction p arbitrary: a)
  case Nil
  then show ?case by simp
next
  case (Cons x xs)
  from Cons.prems(2) obtain ch c where
    n: "a < length h" "h ! a = Dir ch" and c: "map_of ch x = Some c" and w: "walk h c xs = Inr d"
    by (auto simp: heap_get_Some split: option.splits node.splits)
  from heap_okD(2) [OF Cons.prems(1) n] map_of_snd_mem [OF c] have "a < c" by blast
  moreover from Cons.IH [OF Cons.prems(1) w] have "c \<le> d" .
  ultimately show ?case by simp
qed

lemma walk_cong:
  "heap_ok h \<Longrightarrow> walk h a p = Inr d \<Longrightarrow> (\<And>b. b < d \<Longrightarrow> heap_get h' b = heap_get h b) \<Longrightarrow>
   walk h' a p = Inr d"
proof (induction p arbitrary: a)
  case Nil
  then show ?case by simp
next
  case (Cons x xs)
  from Cons.prems(2) obtain ch c where
    n: "a < length h" "h ! a = Dir ch" and g: "heap_get h a = Some (Dir ch)"
    and c: "map_of ch x = Some c" and w: "walk h c xs = Inr d"
    by (auto simp: heap_get_Some split: option.splits node.splits)
  from heap_okD(2) [OF Cons.prems(1) n] map_of_snd_mem [OF c] have "a < c" by blast
  moreover from walk_le [OF Cons.prems(1) w] have "c \<le> d" .
  ultimately have "a < d" by simp
  with Cons.prems(3) g have "heap_get h' a = Some (Dir ch)" by simp
  moreover from Cons.IH [OF Cons.prems(1) w Cons.prems(3)] have "walk h' c xs = Inr d" .
  ultimately show ?case using c by simp
qed

lemma walk_file_update:
  "h ! x = File c \<Longrightarrow> walk (h[x := File c']) a p = walk h a p"
proof (induction p arbitrary: a)
  case Nil
  then show ?case by simp
next
  case (Cons y ys)
  then show ?case
    by (cases "a = x") (auto simp: heap_get_def split: option.splits node.splits)
qed

lemma walk_append:
  "walk h a (p @ q) = (case walk h a p of Inl e \<Rightarrow> Inl e | Inr b \<Rightarrow> walk h b q)"
  by (induction p arbitrary: a) (auto split: option.splits node.splits)

lemma walk_butlast:
  assumes "walk h a p = Inr d" and "p \<noteq> []"
  shows "\<exists>b. walk h a (butlast p) = Inr b \<and> is_dir h b"
proof -
  from assms(2) have p: "p = butlast p @ [last p]" by simp
  from assms(1) obtain b where b: "walk h a (butlast p) = Inr b" "walk h b [last p] = Inr d"
    by (subst (asm) p) (auto simp: walk_append split: sum.splits)
  from b(2) have "is_dir h b"
    by (auto simp: is_dir_def split: option.splits node.splits)
  with b(1) show ?thesis by blast
qed

text \<open>With as much fuel as the store has nodes, \<open>_build_file_paths\<close> returns.\<close>

lemma build_returns:
  "heap_ok h \<Longrightarrow> is_dir h a \<Longrightarrow> length h - a \<le> fuel \<Longrightarrow>
     \<exists>r. build_file_paths fuel h a p = Inr r"
  "heap_ok h \<Longrightarrow> (\<forall>c \<in> snd ` set items. c < length h \<and> length h - c \<le> fuel) \<Longrightarrow>
     \<exists>r. build_items fuel h items p acc = Inr r"
proof (induction fuel h a p and fuel h items p acc rule: build_file_paths_build_items.induct)
  case (1 h a current_path)
  then show ?case by (auto simp: is_dir_iff)
next
  case (2 fuel h a current_path)
  from "2.prems"(2) obtain ch where n: "a < length h" "h ! a = Dir ch"
    by (auto simp: is_dir_iff)
  then have g: "heap_get h a = Some (Dir ch)" by (simp add: heap_get_Some)
  have "\<forall>c \<in> snd ` set ch. c < length h \<and> length h - c \<le> fuel"
    using heap_okD(2) [OF "2.prems"(1) n] "2.prems"(3) by fastforce
  from "2.IH" [OF g refl "2.prems"(1) this] show ?case using g by simp
next
  case (3 fuel h current_path acc)
  then show ?case by simp
next
  case (4 fuel h name item rest current_path acc)
  from "4.prems"(2) have item: "item < length h" "length h - item \<le> fuel"
    and rest: "\<forall>c \<in> snd ` set rest. c < length h \<and> length h - c \<le> fuel"
    by auto
  show ?case
  proof (cases "h ! item")
    case (File c)
    with item have g: "heap_get h item = Some (File c)" by (simp add: heap_get_Some)
    from "4.IH"(1) [OF refl g refl "4.prems"(1) rest] g show ?thesis by simp
  next
    case (Dir ch)
    with item have g: "heap_get h item = Some (Dir ch)" by (simp add: heap_get_Some)
    from Dir item have d: "is_dir h item" by (auto simp: is_dir_iff)
    from "4.IH"(2) [OF refl g refl "4.prems"(1) d item(2)]
    obtain sub where sub: "build_file_paths fuel h item (current_path @ ''/'' @ name) = Inr sub"
      by blast
    from "4.IH"(3) [OF refl g refl sub "4.prems"(1) rest] g sub show ?thesis by simp
  qed
qed

section \<open>Changes of the store\<close>

lemma snd_update_subset: "snd ` set (AList.update k v al) \<subseteq> insert v (snd ` set al)"
  by (induction al) auto

lemma snd_delete_subset: "snd ` set (AList.delete k al) \<subseteq> snd ` set al"
  by (auto simp: AList.delete_eq)

lemma heap_ok_append:
  assumes "heap_ok h" and "x = File c \<or> x = Dir []"
  shows "heap_ok (h @ [x])"
proof (rule heap_okI)
  fix a ch
  assume a: "a < length (h @ [x])" "(h @ [x]) ! a = Dir ch"
  show "distinct (map fst ch) \<and> (\<forall>c\<in>snd ` set ch. a < c \<and> c < length (h @ [x]))"
  proof (cases "a < length h")
    case True
    with a have "h ! a = Dir ch" by (simp add: nth_append)
    from heap_okD [OF assms(1) True this] show ?thesis by force
  next
    case False
    with a assms(2) show ?thesis by (auto simp: nth_append)
  qed
qed

lemma heap_ok_add_child:
  assumes "heap_ok h" and "d < length h" and "h ! d = Dir ch" and "x = File c \<or> x = Dir []"
  shows "heap_ok (h[d := Dir (AList.update n (length h) ch)] @ [x])"
proof (rule heap_okI)
  fix a ch'
  let ?h = "h[d := Dir (AList.update n (length h) ch)] @ [x]"
  assume a: "a < length ?h" "?h ! a = Dir ch'"
  show "distinct (map fst ch') \<and> (\<forall>c\<in>snd ` set ch'. a < c \<and> c < length ?h)"
  proof (cases "a < length h")
    case True
    show ?thesis
    proof (cases "a = d")
      case True
      with a assms(2) have ch': "ch' = AList.update n (length h) ch"
        by (simp add: nth_append)
      from heap_okD [OF assms(1-3)] have
        o: "distinct (map fst ch)" "\<And>c. c \<in> snd ` set ch \<Longrightarrow> d < c \<and> c < length h"
        by blast+
      have "\<forall>c\<in>snd ` set ch'. d < c \<and> c < length ?h"
      proof
        fix c assume "c \<in> snd ` set ch'"
        with snd_update_subset [of n "length h" ch] ch'
        have "c = length h \<or> c \<in> snd ` set ch" by auto
        then show "d < c \<and> c < length ?h"
        proof
          assume "c = length h"
          with assms(2) show ?thesis by simp
        next
          assume "c \<in> snd ` set ch"
          from o(2) [OF this] show ?thesis by simp
        qed
      qed
      with o(1) ch' True show ?thesis by (simp add: AList.distinct_update)
    next
      case False
      with a True have "h ! a = Dir ch'" by (simp add: nth_append)
      from heap_okD [OF assms(1) True this] show ?thesis by force
    qed
  next
    case False
    with a assms(4) show ?thesis by (auto simp: nth_append)
  qed
qed

lemma heap_ok_del_child:
  assumes "heap_ok h" and "d < length h" and "h ! d = Dir ch"
  shows "heap_ok (h[d := Dir (AList.delete n ch)])"
proof (rule heap_okI)
  fix a ch'
  let ?h = "h[d := Dir (AList.delete n ch)]"
  assume a: "a < length ?h" "?h ! a = Dir ch'"
  show "distinct (map fst ch') \<and> (\<forall>c\<in>snd ` set ch'. a < c \<and> c < length ?h)"
  proof (cases "a = d")
    case True
    with a have ch': "ch' = AList.delete n ch" by simp
    from heap_okD [OF assms(1-3)] have
      o: "distinct (map fst ch)" "\<And>c. c \<in> snd ` set ch \<Longrightarrow> d < c \<and> c < length h"
      by blast+
    have "\<forall>c\<in>snd ` set ch'. d < c \<and> c < length ?h"
    proof
      fix c assume "c \<in> snd ` set ch'"
      with snd_delete_subset [of n ch] ch' have "c \<in> snd ` set ch" by blast
      from o(2) [OF this] show "d < c \<and> c < length ?h" by simp
    qed
    with o(1) ch' True show ?thesis by (simp add: AList.distinct_delete)
  next
    case False
    with a have "a < length h" "h ! a = Dir ch'" by simp_all
    from heap_okD [OF assms(1) this] show ?thesis by force
  qed
qed

lemma heap_ok_file:
  assumes "heap_ok h"
  shows "heap_ok (h[a := File t])"
proof (rule heap_okI)
  fix b ch
  assume b: "b < length (h[a := File t])" "h[a := File t] ! b = Dir ch"
  then have "b \<noteq> a" by auto
  with b have "b < length h" "h ! b = Dir ch" by simp_all
  from heap_okD [OF assms this] show
    "distinct (map fst ch) \<and> (\<forall>c\<in>snd ` set ch. b < c \<and> c < length (h[a := File t]))"
    by force
qed

lemma is_dir_append: "is_dir h a \<Longrightarrow> is_dir (h @ xs) a"
  by (auto simp: is_dir_iff nth_append)

lemma is_dir_update_dir: "is_dir h a \<Longrightarrow> is_dir (h[d := Dir x]) a"
  by (cases "a = d") (auto simp: is_dir_iff)

lemma is_dir_update_file: "h ! x = File c \<Longrightarrow> is_dir (h[x := File c']) a = is_dir h a"
  by (cases "a = x") (auto simp: is_dir_iff)

lemma session_ok_cong:
  assumes "session_ok s" and "heap_ok (heap s)"
    and "current_user s' = current_user s"
    and "\<And>u. current_user s = Some u \<Longrightarrow> map_of (root s') u = map_of (root s) u"
    and "path s' = path s"
    and "current_dir s' = current_dir s"
    and "\<And>d. current_dir s = Some d \<Longrightarrow>
           (\<forall>b<d. heap_get (heap s') b = heap_get (heap s) b) \<and> is_dir (heap s') d"
  shows "session_ok s'"
proof (cases "current_user s")
  case None
  with assms show ?thesis by (simp add: session_ok_def)
next
  case (Some u)
  with assms(1) obtain acct d where
    a: "map_of (root s) u = Some acct" and w: "walk (heap s) (FAT acct) (path s) = Inr d"
    and d: "current_dir s = Some d"
    by (auto simp: session_ok_def split: option.splits sum.splits)
  from assms(7) [OF d] have h: "\<And>b. b < d \<Longrightarrow> heap_get (heap s') b = heap_get (heap s) b"
    and i: "is_dir (heap s') d" by auto
  from walk_cong [OF assms(2) w h] have "walk (heap s') (FAT acct) (path s) = Inr d" by simp
  with Some a d i assms(3,5,6) assms(4) [OF Some] show ?thesis by (simp add: session_ok_def)
qed

lemma session_ok_file_update:
  assumes "session_ok s"
    and "current_user s' = current_user s" and "root s' = root s" and "path s' = path s"
    and "current_dir s' = current_dir s"
    and "heap s' = (heap s)[x := File c']" and "heap s ! x = File c"
  shows "session_ok s'"
  using assms
  by (auto simp: session_ok_def walk_file_update is_dir_update_file
      split: option.splits sum.splits)

lemma current_children_Inr:
  "current_children s = Inr (d, ch) \<longleftrightarrow>
     current_dir s = Some d \<and> d < length (heap s) \<and> heap s ! d = Dir ch"
  by (auto simp: current_children_def heap_get_def split: option.splits node.splits)

section \<open>Every operation keeps the state well formed\<close>

lemma well_formedD:
  assumes "well_formed s"
  shows "heap_ok (heap s)" and "distinct (map fst (root s))"
    and "\<And>acct. acct \<in> snd ` set (root s) \<Longrightarrow> is_dir (heap s) (FAT acct)"
    and "distinct (map fst (open_files s))"
    and "\<And>a. a \<in> snd ` set (open_files s) \<Longrightarrow> a < length (heap s)"
    and "distinct (map fst (fat_table s))" and "session_ok s"
  using assms unfolding well_formed_def by blast+

lemma well_formedI:
  assumes "heap_ok (heap s)" and "distinct (map fst (root s))"
    and "\<And>acct. acct \<in> snd ` set (root s) \<Longrightarrow> is_dir (heap s) (FAT acct)"
    and "distinct (map fst (open_files s))"
    and "\<And>a. a \<in> snd ` set (open_files s) \<Longrightarrow> a < length (heap s)"
    and "distinct (map fst (fat_table s))" and "session_ok s"
  shows "well_formed s"
  using assms unfolding well_formed_def by blast

lemma well_formed_init: "well_formed init"
  by (simp add: well_formed_def init_def heap_ok_def session_ok_def)

lemma session_ok_same:
  assumes "session_ok s"
    and "current_user s' = current_user s" and "root s' = root s" and "path s' = path s"
    and "current_dir s' = current_dir s" and "heap s' = heap s"
  shows "session_ok s'"
  using assms(1) unfolding session_ok_def assms(2-6) .

lemma register_wf:
  assumes "well_formed s" and "register s u p = Inr (r, s')"
  shows "well_formed s'"
proof (cases "u \<in> fst ` set (root s)")
  case True
  with assms show ?thesis by (simp add: register_def)
next
  case False
  let ?acct = "\<lparr> username = u, password = p, FAT = length (heap s) \<rparr>"
  from False assms(2) have s': "s' = s\<lparr> root := AList.update u ?acct (root s),
                                        heap := heap s @ [Dir []] \<rparr>"
    by (simp add: register_def)
  note w = well_formedD [OF assms(1)]
  show ?thesis
  proof (rule well_formedI)
    show "heap_ok (heap s')" using w(1) s' by (simp add: heap_ok_append)
    show "distinct (map fst (root s'))" using w(2) s' by (simp add: AList.distinct_update)
    show "is_dir (heap s') (FAT acct)" if "acct \<in> snd ` set (root s')" for acct
    proof -
      from that s' snd_update_subset [of u ?acct "root s"]
      have "acct = ?acct \<or> acct \<in> snd ` set (root s)" by auto
      then show ?thesis
      proof
        assume "acct = ?acct"
        with s' show ?thesis by (simp add: is_dir_iff)
      next
        assume "acct \<in> snd ` set (root s)"
        from is_dir_append [OF w(3) [OF this]] s' show ?thesis by simp
      qed
    qed
    show "distinct (map fst (open_files s'))" using w(4) s' by simp
    show "a < length (heap s')" if "a \<in> snd ` set (open_files s')" for a
      using w(5) [of a] that s' by simp
    show "distinct (map fst (fat_table s'))" using w(6) s' by simp
    show "session_ok s'"
    proof (rule session_ok_cong [OF w(7) w(1)])
      show "map_of (root s') v = map_of (root s) v" if "current_user s = Some v" for v
      proof -
        from w(7) that have "map_of (root s) v \<noteq> None"
          by (auto simp: session_ok_def split: option.splits)
        then have "v \<in> fst ` set (root s)" by (simp add: map_of_eq_None_iff)
        with False have "v \<noteq> u" by auto
        with s' show ?thesis by (simp add: AList.update_conv')
      qed
      show "(\<forall>b<d. heap_get (heap s') b = heap_get (heap s) b) \<and> is_dir (heap s') d"
        if "current_dir s = Some d" for d
      proof -
        from w(7) that have d: "is_dir (heap s) d"
          by (auto simp: session_ok_def split: option.splits sum.splits)
        then have "d < length (heap s)" by (auto simp: is_dir_iff)
        with is_dir_append [OF d] s' show ?thesis by (simp add: heap_get_def nth_append)
      qed
    qed (simp_all add: s')
  qed
qed

lemma login_wf:
  assumes "well_formed s" and "login s u p = Inr (r, s')"
  shows "well_formed s'"
proof (cases "map_of (root s) u")
  case None
  with assms show ?thesis by (simp add: login_def)
next
  case (Some acct)
  show ?thesis
  proof (cases "password acct = p")
    case False
    with Some assms show ?thesis by (simp add: login_def)
  next
    case True
    with Some assms(2) have s': "s' = s\<lparr> current_user := Some u,
        current_dir := Some (FAT acct), path := [] \<rparr>"
      by (simp add: login_def)
    note w = well_formedD [OF assms(1)]
    from w(3) [OF map_of_snd_mem [OF Some]] have "is_dir (heap s) (FAT acct)" .
    with Some s' have "session_ok s'" by (simp add: session_ok_def)
    with w s' show ?thesis by (simp add: well_formed_def)
  qed
qed

lemma logout_wf:
  assumes "well_formed s" and "logout s = Inr (r, s')"
  shows "well_formed s'"
proof (cases "\<exists>user. current_user s = Some user \<and> user \<noteq> []")
  case False
  with assms(2) have "s' = s" by (auto simp: logout_def split: option.splits)
  with assms(1) show ?thesis by simp
next
  case True
  with assms(2) have s': "s' = s\<lparr> current_user := None, current_dir := None, path := [] \<rparr>"
    by (auto simp: logout_def)
  have "session_ok s'" by (simp add: s' session_ok_def)
  with assms(1) show ?thesis by (simp add: well_formed_def s')
qed

lemma add_child_wf:
  assumes "well_formed s" and "current_children s = Inr (d, ch)"
    and "x = File c \<or> x = Dir []"
    and "heap s' = (heap s)[d := Dir (AList.update n (length (heap s)) ch)] @ [x]"
    and "current_user s' = current_user s" and "root s' = root s" and "path s' = path s"
    and "current_dir s' = current_dir s" and "open_files s' = open_files s"
    and "distinct (map fst (fat_table s'))"
  shows "well_formed s'"
proof -
  note w = well_formedD [OF assms(1)]
  from assms(2) have d: "current_dir s = Some d" "d < length (heap s)" "heap s ! d = Dir ch"
    by (simp_all add: current_children_Inr)
  show ?thesis
  proof (rule well_formedI)
    show "heap_ok (heap s')"
      using heap_ok_add_child [OF w(1) d(2,3) assms(3)] assms(4) by simp
    show "distinct (map fst (root s'))" using w(2) assms(6) by simp
    show "is_dir (heap s') (FAT acct)" if "acct \<in> snd ` set (root s')" for acct
      using w(3) [of acct] that assms(4,6) by (simp add: is_dir_append is_dir_update_dir)
    show "distinct (map fst (open_files s'))" using w(4) assms(9) by simp
    show "a < length (heap s')" if "a \<in> snd ` set (open_files s')" for a
      using w(5) [of a] that assms(4,9) by simp
    show "distinct (map fst (fat_table s'))" by fact
    show "session_ok s'"
    proof (rule session_ok_cong [OF w(7) w(1)])
      show "(\<forall>b<e. heap_get (heap s') b = heap_get (heap s) b) \<and> is_dir (heap s') e"
        if "current_dir s = Some e" for e
        using that d assms(4) by (auto simp: heap_get_def nth_append is_dir_iff)
    qed (simp_all add: assms)
  qed
qed

lemma del_child_wf:
  assumes "well_formed s" and "current_children s = Inr (d, ch)"
    and "heap s' = (heap s)[d := Dir (AList.delete n ch)]"
    and "current_user s' = current_user s" and "root s' = root s" and "path s' = path s"
    and "current_dir s' = current_dir s" and "open_files s' = open_files s"
    and "distinct (map fst (fat_table s'))"
  shows "well_formed s'"
proof -
  note w = well_formedD [OF assms(1)]
  from assms(2) have d: "current_dir s = Some d" "d < length (heap s)" "heap s ! d = Dir ch"
    by (simp_all add: current_children_Inr)
  show ?thesis
  proof (rule well_formedI)
    show "heap_ok (heap s')"
      using heap_ok_del_child [OF w(1) d(2,3)] assms(3) by simp
    show "distinct (map fst (root s'))" using w(2) assms(5) by simp
    show "is_dir (heap s') (FAT acct)" if "acct \<in> snd ` set (root s')" for acct
      using w(3) [of acct] that assms(3,5) by (simp add: is_dir_update_dir)
    show "distinct (map fst (open_files s'))" using w(4) assms(8) by simp
    show "a < length (heap s')" if "a \<in> snd ` set (open_files s')" for a
      using w(5) [of a] that assms(3,8) by simp
    show "distinct (map fst (fat_table s'))" by fact
    show "session_ok s'"
    proof (rule session_ok_cong [OF w(7) w(1)])
      show "(\<forall>b<e. heap_get (heap s') b = heap_get (heap s) b) \<and> is_dir (heap s') e"
        if "current_dir s = Some e" for e
        using that d assms(3) by (auto simp: heap_get_def is_dir_iff)
    qed (simp_all add: assms)
  qed
qed

lemma create_wf:
  assumes "well_formed s" and "create s f = Inr (r, s')"
  shows "well_formed s'"
proof -
  from assms(2) obtain d ch where cc: "current_children s = Inr (d, ch)"
    by (auto simp: create_def split: sum.splits)
  show ?thesis
  proof (cases "f \<in> fst ` set ch")
    case True
    with assms cc show ?thesis by (simp add: create_def)
  next
    case False
    with assms(2) cc have s': "s' = s\<lparr> heap := (heap s)[d := Dir (AList.update f (length (heap s)) ch)]
                   @ [File []],
                 fat_table := AList.update f (next_free_space s, next_free_space s)
                                (fat_table s) \<rparr>"
      by (simp add: create_def)
    from well_formedD(6) [OF assms(1)] have dist: "distinct (map fst (fat_table s'))"
      by (simp add: s' AList.distinct_update)
    show ?thesis
      by (rule add_child_wf [OF assms(1) cc disjI1 [OF refl] _ _ _ _ _ _ dist])
        (simp_all add: s')
  qed
qed

lemma md_wf:
  assumes "well_formed s" and "md s f = Inr (r, s')"
  shows "well_formed s'"
proof -
  from assms(2) obtain d ch where cc: "current_children s = Inr (d, ch)"
    by (auto simp: md_def split: sum.splits)
  show ?thesis
  proof (cases "f \<in> fst ` set ch")
    case True
    with assms cc show ?thesis by (simp add: md_def)
  next
    case False
    with assms(2) cc have s': "s' = s\<lparr> heap := (heap s)[d := Dir (AList.update f (length (heap s)) ch)]
                   @ [Dir []] \<rparr>"
      by (simp add: md_def)
    from well_formedD(6) [OF assms(1)] have dist: "distinct (map fst (fat_table s'))"
      by (simp add: s')
    show ?thesis
      by (rule add_child_wf [OF assms(1) cc disjI2 [OF refl] _ _ _ _ _ _ dist])
        (simp_all add: s')
  qed
qed

lemma delete_wf:
  assumes "well_formed s" and "delete s f = Inr (r, s')"
  shows "well_formed s'"
proof -
  from assms(2) obtain d ch where cc: "current_children s = Inr (d, ch)"
    by (auto simp: delete_def split: sum.splits)
  show ?thesis
  proof (cases "f \<in> fst ` set ch")
    case False
    with assms cc show ?thesis by (simp add: delete_def)
  next
    case True
    with assms(2) cc have s': "heap s' = (heap s)[d := Dir (AList.delete f ch)]"
      "current_user s' = current_user s" "root s' = root s" "path s' = path s"
      "current_dir s' = current_dir s" "open_files s' = open_files s"
      "fat_table s' = AList.delete f (fat_table s)"
      by (auto simp: delete_def Let_def split: option.splits if_splits sum.splits)
    from well_formedD(6) [OF assms(1)] have dist: "distinct (map fst (fat_table s'))"
      by (simp add: s' AList.distinct_delete)
    show ?thesis
      by (rule del_child_wf [OF assms(1) cc s'(1-6) dist])
  qed
qed

lemma rd_wf:
  assumes "well_formed s" and "rd s f = Inr (r, s')"
  shows "well_formed s'"
proof -
  from assms(2) obtain d ch where cc: "current_children s = Inr (d, ch)"
    by (auto simp: rd_def split: sum.splits)
  show ?thesis
  proof (cases "\<exists>a. map_of ch f = Some a \<and> is_dir (heap s) a")
    case False
    with assms cc show ?thesis by (auto simp: rd_def split: option.splits)
  next
    case True
    with assms(2) cc have s': "s' = s\<lparr> heap := (heap s)[d := Dir (AList.delete f ch)] \<rparr>"
      by (auto simp: rd_def)
    from well_formedD(6) [OF assms(1)] have dist: "distinct (map fst (fat_table s'))"
      by (simp add: s')
    show ?thesis
      by (rule del_child_wf [OF assms(1) cc _ _ _ _ _ _ dist]) (simp_all add: s')
  qed
qed

lemma open_wf:
  assumes "well_formed s" and "open s f = Inr (r, s')"
  shows "well_formed s'"
proof -
  from assms(2) obtain d ch where cc: "current_children s = Inr (d, ch)"
    by (auto simp: open_def split: sum.splits)
  then have d: "d < length (heap s)" "heap s ! d = Dir ch"
    by (simp_all add: current_children_Inr)
  note w = well_formedD [OF assms(1)]
  show ?thesis
  proof (cases "\<exists>a. map_of ch f = Some a \<and> f \<notin> fst ` set (open_files s)")
    case False
    with assms cc show ?thesis by (auto simp: open_def split: option.splits if_splits)
  next
    case True
    then obtain a where a: "map_of ch f = Some a" "f \<notin> fst ` set (open_files s)" by blast
    with assms(2) cc have s': "s' = s\<lparr> open_files := AList.update f a (open_files s) \<rparr>"
      by (simp add: open_def)
    from heap_okD(2) [OF w(1) d] map_of_snd_mem [OF a(1)] have al: "a < length (heap s)"
      by blast
    have b: "b < length (heap s)" if "b \<in> snd ` set (AList.update f a (open_files s))" for b
      using that snd_update_subset [of f a "open_files s"] al w(5) [of b] by auto
    have "session_ok s'"
      by (rule session_ok_same [OF w(7)]) (simp_all add: s')
    with w(1-4,6) b show ?thesis
      by (simp add: well_formed_def s' AList.distinct_update)
  qed
qed

lemma close_wf:
  assumes "well_formed s" and "close s f = Inr (r, s')"
  shows "well_formed s'"
proof (cases "f \<in> fst ` set (open_files s)")
  case False
  with assms show ?thesis by (simp add: close_def)
next
  case True
  with assms(2) have s': "s' = s\<lparr> open_files := AList.delete f (open_files s) \<rparr>"
    by (simp add: close_def)
  note w = well_formedD [OF assms(1)]
  have b: "b < length (heap s)" if "b \<in> snd ` set (AList.delete f (open_files s))" for b
    using that snd_delete_subset [of f "open_files s"] w(5) [of b] by auto
  have "session_ok s'"
    by (rule session_ok_same [OF w(7)]) (simp_all add: s')
  with w(1-4,6) b show ?thesis
    by (simp add: well_formed_def s' AList.distinct_delete)
qed

lemma read_state: "read s f = Inr (r, s') \<Longrightarrow> s' = s"
  by (auto simp: read_def split: option.splits node.splits)

lemma dir_state: "dir s = Inr (r, s') \<Longrightarrow> s' = s"
  by (auto simp: dir_def split: sum.splits)

lemma write_wf:
  assumes "well_formed s" and "write s f t = Inr (r, s')"
  shows "well_formed s'"
proof (cases "map_of (open_files s) f")
  case None
  with assms show ?thesis by (simp add: write_def)
next
  case (Some a)
  with assms(2) obtain start en c where
    n: "a < length (heap s)" "heap s ! a = File c"
    and s': "heap s' = (heap s)[a := File (c @ t)]"
      "current_user s' = current_user s" "root s' = root s" "path s' = path s"
      "current_dir s' = current_dir s" "open_files s' = open_files s"
      "fat_table s' = AList.update f (start, en) (fat_table s)"
    by (auto simp: write_def Let_def heap_get_Some split: option.splits node.splits)
  note w = well_formedD [OF assms(1)]
  show ?thesis
  proof (rule well_formedI)
    show "heap_ok (heap s')" using w(1) s' by (simp add: heap_ok_file)
    show "distinct (map fst (root s'))" using w(2) s' by simp
    show "is_dir (heap s') (FAT acct)" if "acct \<in> snd ` set (root s')" for acct
      using w(3) [of acct] that s' n by (simp add: is_dir_update_file)
    show "distinct (map fst (open_files s'))" using w(4) s' by simp
    show "b < length (heap s')" if "b \<in> snd ` set (open_files s')" for b
      using w(5) [of b] that s' by simp
    show "distinct (map fst (fat_table s'))" using w(6) s' by (simp add: AList.distinct_update)
    show "session_ok s'"
      by (rule session_ok_file_update [OF w(7) s'(2-5) s'(1) n(2)])
  qed
qed

lemma session_okD:
  assumes "session_ok s" and "current_user s = Some u"
  obtains acct d where "map_of (root s) u = Some acct"
    and "walk (heap s) (FAT acct) (path s) = Inr d"
    and "current_dir s = Some d" and "is_dir (heap s) d"
  using assms by (auto simp: session_ok_def split: option.splits sum.splits)

lemma session_ok_logged_in:
  assumes "session_ok s" and "current_dir s = Some d"
  obtains u where "current_user s = Some u"
  using assms by (cases "current_user s") (auto simp: session_ok_def)

lemma cd_parent:
  assumes "well_formed s" and "path s \<noteq> []"
  shows "\<exists>u acct d'. current_user s = Some u \<and> map_of (root s) u = Some acct \<and>
           walk (heap s) (FAT acct) (butlast (path s)) = Inr d' \<and> is_dir (heap s) d' \<and>
           cd s ''..'' = Inr (Str ''Returned to the parent directory.'',
                              s\<lparr> path := butlast (path s), current_dir := Some d' \<rparr>)"
proof -
  note so = well_formedD(7) [OF assms(1)]
  from so assms(2) obtain u where u: "current_user s = Some u"
    by (cases "current_user s") (auto simp: session_ok_def)
  from session_okD [OF so u] obtain acct d where
    a: "map_of (root s) u = Some acct" and w: "walk (heap s) (FAT acct) (path s) = Inr d"
    by metis
  from walk_butlast [OF w assms(2)] obtain d' where
    d': "walk (heap s) (FAT acct) (butlast (path s)) = Inr d'" "is_dir (heap s) d'"
    by blast
  with u a assms(2) show ?thesis
    by (simp add: cd_def update_current_dir_def)
qed

lemma cd_wf:
  assumes "well_formed s" and "cd s x = Inr (r, s')"
  shows "well_formed s'"
proof (cases "x = ''..''")
  case True
  show ?thesis
  proof (cases "path s = []")
    case True
    with \<open>x = ''..''\<close> assms show ?thesis by (simp add: cd_def)
  next
    case False
    from cd_parent [OF assms(1) False] True assms(2) obtain u acct d' where
      u: "current_user s = Some u" "map_of (root s) u = Some acct"
      "walk (heap s) (FAT acct) (butlast (path s)) = Inr d'" "is_dir (heap s) d'"
      and s': "s' = s\<lparr> path := butlast (path s), current_dir := Some d' \<rparr>"
      by auto
    from u have "session_ok s'" by (simp add: s' session_ok_def)
    with assms(1) show ?thesis by (simp add: well_formed_def s')
  qed
next
  case False
  from False assms(2) obtain d ch where cc: "current_children s = Inr (d, ch)"
    by (auto simp: cd_def split: sum.splits)
  show ?thesis
  proof (cases "\<exists>a. map_of ch x = Some a \<and> is_dir (heap s) a")
    case False
    with \<open>x \<noteq> ''..''\<close> assms cc show ?thesis by (auto simp: cd_def split: option.splits)
  next
    case True
    then obtain a where a: "map_of ch x = Some a" "is_dir (heap s) a" by blast
    note so = well_formedD(7) [OF assms(1)]
    from cc have d: "current_dir s = Some d" "d < length (heap s)" "heap s ! d = Dir ch"
      by (simp_all add: current_children_Inr)
    from session_ok_logged_in [OF so d(1)] obtain u where u: "current_user s = Some u" .
    from session_okD [OF so u] d(1) obtain acct where
      acct: "map_of (root s) u = Some acct" and w: "walk (heap s) (FAT acct) (path s) = Inr d"
      by (metis option.inject)
    from w d a(1) have w': "walk (heap s) (FAT acct) (path s @ [x]) = Inr a"
      by (simp add: walk_append heap_get_def)
    with \<open>x \<noteq> ''..''\<close> assms(2) cc a u acct
    have s': "s' = s\<lparr> path := path s @ [x], current_dir := Some a \<rparr>"
      by (simp add: cd_def update_current_dir_def)
    from u acct w' a(2) have "session_ok s'" by (simp add: s' session_ok_def)
    with assms(1) show ?thesis by (simp add: well_formed_def s')
  qed
qed

lemma process_command_wf:
  assumes "well_formed s" and "process_command s command = Inr (r, s')"
  shows "well_formed s'"
proof -
  let ?args = "split command"
  let ?cmd = "lower (hd ?args)"
  let ?n = "length ?args"
  consider "s' = s"
    | "register s (?args ! 1) (?args ! 2) = Inr (r, s')"
    | "login s (?args ! 1) (?args ! 2) = Inr (r, s')"
    | "logout s = Inr (r, s')" | "dir s = Inr (r, s')"
    | "create s (?args ! 1) = Inr (r, s')" | "delete s (?args ! 1) = Inr (r, s')"
    | "open s (?args ! 1) = Inr (r, s')" | "close s (?args ! 1) = Inr (r, s')"
    | "read s (?args ! 1) = Inr (r, s')"
    | "write s (?args ! 1) (join (drop 2 ?args)) = Inr (r, s')"
    | "cd s (?args ! 1) = Inr (r, s')" | "md s (?args ! 1) = Inr (r, s')"
    | "rd s (?args ! 1) = Inr (r, s')"
    using assms(2) unfolding process_command_def Let_def
    by (simp split: if_splits sum.splits prod.splits)
  then show ?thesis
    using assms(1)
    by cases
      (auto intro: register_wf login_wf logout_wf create_wf delete_wf open_wf close_wf
        write_wf cd_wf md_wf rd_wf dest: read_state dir_state)
qed

lemma reachable_well_formed: "reachable s \<Longrightarrow> well_formed s"
  by (induction rule: reachable.induct) (auto intro: well_formed_init process_command_wf)

lemma show_fat_table_returns:
  assumes "well_formed s" and "current_user s = Some u"
  shows "\<exists>rows. show_fat_table s = Inr rows"
proof -
  note w = well_formedD [OF assms(1)]
  from session_okD [OF w(7) assms(2)] obtain acct where a: "map_of (root s) u = Some acct"
    by metis
  from w(3) [OF map_of_snd_mem [OF a]] have "is_dir (heap s) (FAT acct)" .
  from build_returns(1) [OF w(1) this, of "length (heap s)" "[]"]
  obtain fp where "build_file_paths (length (heap s)) (heap s) (FAT acct) [] = Inr fp"
    by auto
  with assms(2) a show ?thesis by (simp add: show_fat_table_def)
qed

section \<open>The allocation table on runs that write every file once\<close>

lemma set_update_subset: "set (AList.update k v al) \<subseteq> insert (k, v) (set al)"
  by (induction al) auto

lemma set_delete_subset: "set (AList.delete k al) \<subseteq> set al"
  by (auto simp: AList.delete_eq)

lemma length_encode_ascii: "ascii t \<Longrightarrow> length (encode t) = length t"
  by (induction t) (simp_all add: encode_def encode_char_def ascii_def)

lemma ascii_take: "ascii t \<Longrightarrow> ascii (take n t)"
  by (auto simp: ascii_def dest: in_set_takeD)

lemma length_py_set_slice:
  "a \<le> b \<Longrightarrow> b \<le> length xs \<Longrightarrow>
     length (py_set_slice xs a b ys) = length xs - (b - a) + length ys"
  by (simp add: py_set_slice_def Let_def min_absorb1 max_absorb2)

lemma fat_boundsD:
  "fat_bounds s \<Longrightarrow> map_of (fat_table s) f = Some (start, end) \<Longrightarrow>
     start \<le> end \<and> end \<le> length (disk_space s)"
  by (auto simp: fat_bounds_def dest!: map_of_SomeD)

lemma create_bounds:
  assumes "fat_bounds s" and "next_free_space s \<le> length (disk_space s)"
    and "create s f = Inr (r, s')"
  shows "fat_bounds s' \<and> next_free_space s' \<le> length (disk_space s') \<and>
         length (disk_space s') = length (disk_space s)"
proof -
  from assms(3) have
    "s' = s \<or> (disk_space s' = disk_space s \<and> next_free_space s' = next_free_space s \<and>
       fat_table s' = AList.update f (next_free_space s, next_free_space s) (fat_table s))"
    by (auto simp: create_def split: sum.splits if_splits)
  then show ?thesis
  proof
    assume "s' = s"
    with assms show ?thesis by simp
  next
    assume s': "disk_space s' = disk_space s \<and> next_free_space s' = next_free_space s \<and>
       fat_table s' = AList.update f (next_free_space s, next_free_space s) (fat_table s)"
    have "fat_bounds s'"
      unfolding fat_bounds_def
    proof (intro ballI)
      fix e assume "e \<in> set (fat_table s')"
      with s' set_update_subset [of f "(next_free_space s, next_free_space s)" "fat_table s"]
      have "e = (f, next_free_space s, next_free_space s) \<or> e \<in> set (fat_table s)" by auto
      with assms(1,2) s'
      show "case e of (filename, start, end) \<Rightarrow> start \<le> end \<and> end \<le> length (disk_space s')"
        by (auto simp: fat_bounds_def)
    qed
    with s' assms(2) show ?thesis by simp
  qed
qed

lemma delete_bounds:
  assumes "fat_bounds s" and "next_free_space s \<le> length (disk_space s)"
    and "delete s f = Inr (r, s')"
  shows "fat_bounds s' \<and> next_free_space s' \<le> length (disk_space s') \<and>
         length (disk_space s') = length (disk_space s)"
proof -
  from assms(3) have
    "s' = s \<or> (\<exists>start en. map_of (fat_table s) f = Some (start, en) \<and>
       disk_space s' = py_set_slice (disk_space s) start en (replicate (en - start) 0) \<and>
       next_free_space s' = start \<and> fat_table s' = AList.delete f (fat_table s))"
    by (auto simp: delete_def Let_def split: sum.splits if_splits option.splits)
  then show ?thesis
  proof
    assume "s' = s"
    with assms show ?thesis by simp
  next
    assume "\<exists>start en. map_of (fat_table s) f = Some (start, en) \<and>
       disk_space s' = py_set_slice (disk_space s) start en (replicate (en - start) 0) \<and>
       next_free_space s' = start \<and> fat_table s' = AList.delete f (fat_table s)"
    then obtain start en where m: "map_of (fat_table s) f = Some (start, en)"
      and s': "disk_space s' = py_set_slice (disk_space s) start en (replicate (en - start) 0)"
        "next_free_space s' = start" "fat_table s' = AList.delete f (fat_table s)"
      by blast
    from fat_boundsD [OF assms(1) m] have b: "start \<le> en" "en \<le> length (disk_space s)"
      by simp_all
    with s'(1) have len: "length (disk_space s') = length (disk_space s)"
      by (simp add: length_py_set_slice)
    have "fat_bounds s'"
      using assms(1) set_delete_subset [of f "fat_table s"] s'(3) len
      by (auto simp: fat_bounds_def)
    with len b s'(2) show ?thesis by simp
  qed
qed

lemma write_bounds:
  assumes "fat_bounds s" and "next_free_space s \<le> length (disk_space s)"
    and "write s f t = Inr (r, s')"
    and "ascii t"
    and "\<forall>(start, end) \<in> set_option (map_of (fat_table s) f). start = end"
  shows "fat_bounds s' \<and> next_free_space s' \<le> length (disk_space s') \<and>
         length (disk_space s') = length (disk_space s)"
proof -
  let ?L = "length (disk_space s)"
  from assms(3) have
    "s' = s \<or> (\<exists>start en. map_of (fat_table s) f = Some (start, en) \<and>
       disk_space s' = py_set_slice (disk_space s) start (min (en + length t) ?L)
         (encode (py_prefix t (int (min (en + length t) ?L) - int start))) \<and>
       next_free_space s' = min (en + length t) ?L \<and>
       fat_table s' = AList.update f (start, min (en + length t) ?L) (fat_table s))"
    by (auto simp: write_def Let_def split: option.splits node.splits)
  then show ?thesis
  proof
    assume "s' = s"
    with assms show ?thesis by simp
  next
    assume "\<exists>start en. map_of (fat_table s) f = Some (start, en) \<and>
       disk_space s' = py_set_slice (disk_space s) start (min (en + length t) ?L)
         (encode (py_prefix t (int (min (en + length t) ?L) - int start))) \<and>
       next_free_space s' = min (en + length t) ?L \<and>
       fat_table s' = AList.update f (start, min (en + length t) ?L) (fat_table s)"
    then obtain start en where m: "map_of (fat_table s) f = Some (start, en)"
      and s': "disk_space s' = py_set_slice (disk_space s) start (min (en + length t) ?L)
         (encode (py_prefix t (int (min (en + length t) ?L) - int start)))"
        "next_free_space s' = min (en + length t) ?L"
        "fat_table s' = AList.update f (start, min (en + length t) ?L) (fat_table s)"
      by blast
    from m assms(5) have e: "en = start" by simp
    from fat_boundsD [OF assms(1) m] e have b: "start \<le> ?L" by simp
    define k where "k = min (start + length t) ?L"
    from b have k: "start \<le> k" "k \<le> ?L" "k - start \<le> length t"
      by (simp_all add: k_def)
    have p: "py_prefix t (int k - int start) = take (k - start) t"
      using k(1) by (simp add: py_prefix_def nat_diff_distrib)
    have "length (encode (take (k - start) t)) = k - start"
      using length_encode_ascii [OF ascii_take [OF assms(4)], of "k - start"] k(3) by simp
    moreover from s'(1) p have "disk_space s' =
        py_set_slice (disk_space s) start k (encode (take (k - start) t))"
      by (simp add: e k_def)
    ultimately have len: "length (disk_space s') = ?L"
      using k by (simp add: length_py_set_slice)
    have "fat_bounds s'"
      unfolding fat_bounds_def
    proof (intro ballI)
      fix x assume "x \<in> set (fat_table s')"
      with s'(3) set_update_subset [of f "(start, k)" "fat_table s"]
      have "x = (f, start, k) \<or> x \<in> set (fat_table s)" by (auto simp: e k_def)
      with assms(1) k len
      show "case x of (filename, start, end) \<Rightarrow> start \<le> end \<and> end \<le> length (disk_space s')"
        by (auto simp: fat_bounds_def)
    qed
    with len s'(2) k show ?thesis by (simp add: e k_def)
  qed
qed

lemma other_ops_keep_disk:
  "register s a b = Inr (r, s') \<Longrightarrow> disk_space s' = disk_space s \<and>
     fat_table s' = fat_table s \<and> next_free_space s' = next_free_space s"
  "login s a b = Inr (r, s') \<Longrightarrow> disk_space s' = disk_space s \<and>
     fat_table s' = fat_table s \<and> next_free_space s' = next_free_space s"
  "logout s = Inr (r, s') \<Longrightarrow> disk_space s' = disk_space s \<and>
     fat_table s' = fat_table s \<and> next_free_space s' = next_free_space s"
  "open s a = Inr (r, s') \<Longrightarrow> disk_space s' = disk_space s \<and>
     fat_table s' = fat_table s \<and> next_free_space s' = next_free_space s"
  "close s a = Inr (r, s') \<Longrightarrow> disk_space s' = disk_space s \<and>
     fat_table s' = fat_table s \<and> next_free_space s' = next_free_space s"
  "md s a = Inr (r, s') \<Longrightarrow> disk_space s' = disk_space s \<and>
     fat_table s' = fat_table s \<and> next_free_space s' = next_free_space s"
  "rd s a = Inr (r, s') \<Longrightarrow> disk_space s' = disk_space s \<and>
     fat_table s' = fat_table s \<and> next_free_space s' = next_free_space s"
  "cd s a = Inr (r, s') \<Longrightarrow> disk_space s' = disk_space s \<and>
     fat_table s' = fat_table s \<and> next_free_space s' = next_free_space s"
  by (auto simp: register_def login_def logout_def open_def close_def md_def rd_def cd_def
      update_current_dir_def split: if_splits option.splits sum.splits)

lemma once_step:
  assumes "fat_bounds s" and "next_free_space s \<le> length (disk_space s)"
    and "first_ascii_write s command" and "process_command s command = Inr (r, s')"
  shows "fat_bounds s' \<and> next_free_space s' \<le> length (disk_space s') \<and>
         length (disk_space s') = length (disk_space s)"
proof -
  let ?args = "split command"
  consider "s' = s"
    | "register s (?args ! 1) (?args ! 2) = Inr (r, s')"
    | "login s (?args ! 1) (?args ! 2) = Inr (r, s')"
    | "logout s = Inr (r, s')" | "dir s = Inr (r, s')"
    | "create s (?args ! 1) = Inr (r, s')" | "delete s (?args ! 1) = Inr (r, s')"
    | "open s (?args ! 1) = Inr (r, s')" | "close s (?args ! 1) = Inr (r, s')"
    | "read s (?args ! 1) = Inr (r, s')"
    | "write s (?args ! 1) (join (drop 2 ?args)) = Inr (r, s')"
        "?args \<noteq> []" "lower (hd ?args) = ''write''" "3 \<le> length ?args"
    | "cd s (?args ! 1) = Inr (r, s')" | "md s (?args ! 1) = Inr (r, s')"
    | "rd s (?args ! 1) = Inr (r, s')"
    using assms(4) unfolding process_command_def Let_def
    by (simp split: if_splits sum.splits prod.splits)
  moreover have keep: ?thesis
    if "disk_space s' = disk_space s \<and> fat_table s' = fat_table s \<and>
        next_free_space s' = next_free_space s"
    using that assms(1,2) by (simp add: fat_bounds_def)
  ultimately show ?thesis
  proof cases
    case 1
    with assms(1,2) show ?thesis by simp
  next
    case 2
    from keep [OF other_ops_keep_disk(1) [OF this]] show ?thesis .
  next
    case 3
    from keep [OF other_ops_keep_disk(2) [OF this]] show ?thesis .
  next
    case 4
    from keep [OF other_ops_keep_disk(3) [OF this]] show ?thesis .
  next
    case 5
    with assms(1,2) dir_state show ?thesis by blast
  next
    case 8
    from keep [OF other_ops_keep_disk(4) [OF this]] show ?thesis .
  next
    case 9
    from keep [OF other_ops_keep_disk(5) [OF this]] show ?thesis .
  next
    case 10
    with assms(1,2) read_state show ?thesis by blast
  next
    case 12
    from keep [OF other_ops_keep_disk(8) [OF this]] show ?thesis .
  next
    case 13
    from keep [OF other_ops_keep_disk(6) [OF this]] show ?thesis .
  next
    case 14
    from keep [OF other_ops_keep_disk(7) [OF this]] show ?thesis .
  next
    case 6
    from create_bounds [OF assms(1,2) this] show ?thesis .
  next
    case 7
    from delete_bounds [OF assms(1,2) this] show ?thesis .
  next
    case 11
    from assms(3) 11(2-4) have "ascii (join (drop 2 ?args))"
      "\<forall>(start, end) \<in> set_option (map_of (fat_table s) (?args ! 1)). start = end"
      by (simp_all add: first_ascii_write_def Let_def)
    from write_bounds [OF assms(1,2) 11(1) this] show ?thesis .
  qed
qed

lemma encode_replicate_ascii:
  "(of_char c :: nat) < 128 \<Longrightarrow> encode (replicate n c) = replicate n (of_nat (of_char c))"
  by (induction n) (simp_all add: encode_def encode_char_def)

lemma split_acc_replicate:
  "\<not> isspace c \<Longrightarrow> split_acc cur (replicate n c) =
     (if cur = [] \<and> n = 0 then [] else [cur @ replicate n c])"
proof (induction n arbitrary: cur)
  case 0
  then show ?case by simp
next
  case (Suc n)
  then show ?case by (simp add: replicate_app_Cons_same)
qed

lemma in_subdir_run:
  "map_sum id snd (main_loop logged_in [''md d'', ''cd d'']) = Inr in_subdir"
  by (simp add: eval_defs logged_in_def in_subdir_def update_current_dir_def is_dir_def)

lemma two_files_run:
  "map_sum id snd (main_loop logged_in
     [''create f'', ''create g'', ''open f'', ''open g'', ''write f ab'', ''write g cd'']) =
   Inr two_files"
  by (simp add: eval_defs logged_in_def two_files_def py_set_slice_def py_prefix_def
      encode_def encode_char_def)

lemma shrunk_run:
  "map_sum id snd (main_loop logged_in
     [''create f'', ''open f'', ''write f '' @ replicate 524289 CHR ''a'', ''create g'',
      ''write f x'']) =
   Inr shrunk"
  by (simp add: eval_defs logged_in_def shrunk_def py_set_slice_def py_prefix_def
      split_acc_replicate encode_replicate_ascii encode_def encode_char_def)

lemma inverted_run:
  "map_sum id snd (main_loop shrunk [''open g'', ''write g y'']) = Inr inverted"
  by (simp add: eval_defs shrunk_def inverted_def py_set_slice_def py_prefix_def
      encode_def encode_char_def)

section \<open>Runs and the states they reach\<close>

lemma reachable_run:
  assumes "reachable s" and "map_sum id snd (main_loop s commands) = Inr s'"
  shows "reachable s'"
proof -
  from assms(2) obtain rs where "main_loop s commands = Inr (rs, s')"
    by (cases "main_loop s commands") auto
  from reachable_main_loop [OF assms(1) this] show ?thesis .
qed

lemma reachable_in_subdir: "reachable in_subdir"
  using reachable_run [OF reachable_logged_in in_subdir_run] .

lemma reachable_shrunk: "reachable shrunk"
  using reachable_run [OF reachable_logged_in shrunk_run] .

lemma reachable_inverted: "reachable inverted"
  using reachable_run [OF reachable_shrunk inverted_run] .

lemma reachable_once_main_loop:
  "reachable_once s \<Longrightarrow> main_loop s commands = Inr (rs, s') \<Longrightarrow>
   \<forall>c \<in> set commands. lower (hd (split c)) \<noteq> ''write'' \<Longrightarrow> reachable_once s'"
proof (induction commands arbitrary: s rs)
  case Nil
  then show ?case by simp
next
  case (Cons c cs)
  show ?case
  proof (cases "lower c = ''exit''")
    case True
    with Cons.prems show ?thesis by simp
  next
    case False
    with Cons.prems obtain r s1 rs1 where
      st: "process_command s c = Inr (r, s1)" and rest: "main_loop s1 cs = Inr (rs1, s')"
      by (auto split: sum.splits)
    from Cons.prems(3) have "first_ascii_write s c"
      by (simp add: first_ascii_write_def Let_def)
    from reachable_once_step [OF Cons.prems(1) this st] have "reachable_once s1" .
    from Cons.IH [OF this rest] Cons.prems(3) show ?thesis by simp
  qed
qed

lemma reachable_once_with_file: "reachable_once with_file"
proof -
  let ?s = "with_file\<lparr> disk_space := replicate (1024 * 1024) 0, fat_table := [(''f'', 0, 0)],
              next_free_space := 0, heap := [Dir [(''f'', 1)], File []] \<rparr>"
  have "main_loop init [''register u p'', ''login u p'', ''create f'', ''open f''] =
          Inr ([Str (''User '' @ quoted ''u'' @ '' registered successfully.''),
                Str (''User '' @ quoted ''u'' @ '' logged in successfully.''),
                Str (''File '' @ quoted ''f'' @ '' created.''),
                Str (''File '' @ quoted ''f'' @ '' opened.'')], ?s)"
    by (simp add: eval_defs with_file_def)
  from reachable_once_main_loop [OF reachable_once_init this]
  have r: "reachable_once ?s"
    by (simp add: split_def isspace_def lower_def lower_char_def)
  have w: "first_ascii_write ?s ''write f ab''"
    by (simp add: first_ascii_write_def split_def isspace_def with_file_def ascii_def)
  have "process_command ?s ''write f ab'' = Inr (Str ''Content written to file.'', with_file)"
    by (simp add: eval_defs with_file_def py_set_slice_def py_prefix_def encode_def
        encode_char_def)
  from reachable_once_step [OF r w this] show ?thesis .
qed

lemma zero_fill:
  assumes "start \<le> en"
  shows "set (py_slice (py_set_slice xs start en (replicate (en - start) z)) start en) \<subseteq> {z}"
proof (cases "start \<le> length xs")
  case True
  then have "py_set_slice xs start en (replicate (en - start) z) =
      take start xs @ replicate (en - start) z @ drop (max start (min en (length xs))) xs"
    by (simp add: py_set_slice_def Let_def min_absorb1)
  with True assms show ?thesis
    by (auto simp: py_slice_def min_absorb2)
next
  case False
  then have "py_set_slice xs start en (replicate (en - start) z) =
      xs @ replicate (en - start) z"
    by (simp add: py_set_slice_def Let_def min_def max_def)
  with False show ?thesis
    by (auto simp: py_slice_def dest!: in_set_dropD in_set_takeD)
qed

lemma zero_fill_inside:
  assumes "start \<le> en" and "en \<le> length xs"
  shows "py_slice (py_set_slice xs start en (replicate (en - start) z)) start en =
           replicate (en - start) z"
    and "length (py_set_slice xs start en (replicate (en - start) z)) = length xs"
  using assms by (simp_all add: py_set_slice_def py_slice_def Let_def min_absorb1 max_absorb2)

section \<open>The claims\<close>




text \<open>
  Claim C2. Every core operation returns an outcome in every reachable state and never
  raises; in particular \<open>delete(name)\<close> returns a result when \<open>name\<close> is a directory of
  the working directory. The program does not: \<open>del d\<close> on a directory \<open>d\<close> removes
  the entry and then looks \<open>d\<close> up in the allocation table, which raises \<open>KeyError\<close>.
\<close>

theorem C2_delete_directory_raises:
  "main_loop init [''register u p'', ''login u p'', ''md d'', ''del d''] = Inl KeyError"
  by (simp add: eval_defs)

text \<open>
  Claim C3, amended. In every state reached by commands in which each \<open>write\<close> is of
  ASCII text to a file whose record is still empty, the buffer has its 1048576 bytes,
  every record satisfies \<open>0 \<le> start \<le> end \<le> disk size\<close>, and the cursor is inside
  the buffer. Nothing is said of the ranges of two files being disjoint, nor of the
  states after another kind of \<open>write\<close>.
\<close>

theorem C3_bounds_when_written_once:
  "reachable_once s \<Longrightarrow>
     fat_bounds s \<and> next_free_space s \<le> length (disk_space s) \<and>
     length (disk_space s) = 1024 * 1024"
proof (induction rule: reachable_once.induct)
  case reachable_once_init
  show ?case by (simp add: init_def fat_bounds_def)
next
  case (reachable_once_step s command r s')
  with once_step [of s command r s'] show ?case by simp
qed

theorem C3_bounds_when_written_once_witness:
  "reachable_once with_file \<and> fat_bounds with_file \<and>
   next_free_space with_file \<le> length (disk_space with_file) \<and>
   length (disk_space with_file) = 1024 * 1024"
  using C3_bounds_when_written_once [OF reachable_once_with_file] reachable_once_with_file
  by blast

text \<open>
  Claim C3 as stated fails. Two files created one after the other start at the same
  offset, so that their ranges are the same after one \<open>write\<close> to each; and a second
  \<open>write\<close> to a file replaces the whole slice \<open>[start:new_end]\<close> by the new text
  alone, which shortens the buffer: its length falls below the end of the record.
\<close>

theorem C3_counterexample:
  "map_sum id snd (main_loop init
     [''register u p'', ''login u p'', ''create f'', ''create g'', ''open f'', ''open g'',
      ''write f ab'', ''write g cd'']) = Inr two_files \<and>
   \<not> fat_invariant two_files \<and>
   map_sum id snd (main_loop init
     [''register u p'', ''login u p'', ''create f'', ''open f'',
      ''write f '' @ replicate 524289 CHR ''a'', ''create g'', ''write f x'']) = Inr shrunk \<and>
   \<not> fat_bounds shrunk"
proof -
  have "map_sum id snd (main_loop init
     [''register u p'', ''login u p'', ''create f'', ''create g'', ''open f'', ''open g'',
      ''write f ab'', ''write g cd'']) = Inr two_files"
    by (simp add: eval_defs two_files_def py_set_slice_def py_prefix_def
        encode_def encode_char_def)
  moreover have "\<not> fat_invariant two_files"
    by (simp add: fat_invariant_def two_files_def overlap_def)
  moreover have "map_sum id snd (main_loop init
     [''register u p'', ''login u p'', ''create f'', ''open f'',
      ''write f '' @ replicate 524289 CHR ''a'', ''create g'', ''write f x'']) = Inr shrunk"
    by (simp add: eval_defs shrunk_def py_set_slice_def py_prefix_def
        split_acc_replicate encode_replicate_ascii encode_def encode_char_def)
  moreover have "\<not> fat_bounds shrunk"
    by (simp add: fat_bounds_def shrunk_def)
  ultimately show ?thesis by blast
qed

text \<open>
  What \<open>write\<close> does to the allocation table and the buffer. For a name that is open
  on a file node and has a record \<open>(start, end)\<close>, \<open>write\<close> computes
  \<open>new_end = min(end + len(content), len(disk_space))\<close>, with the number of characters
  of the text and the length the buffer has then, assigns the text, cut to
  \<open>new_end - start\<close> characters, to the slice \<open>disk_space[start:new_end]\<close>, sets the
  record to \<open>(start, new_end)\<close> and the cursor to \<open>new_end\<close>, and returns the same
  message whether or not the text was cut. For a record that lies in the buffer the new
  buffer is the old one up to \<open>start\<close>, the bytes written, and the old one from
  \<open>new_end\<close> on: the slice has \<open>new_end - start\<close> positions, the text written has at
  most \<open>len(content)\<close> characters.
\<close>

lemma write_effect:
  assumes "map_of (open_files s) f = Some a"
    and "heap_get (heap s) a = Some (File c)"
    and "map_of (fat_table s) f = Some (start, end)"
    and "new_end = min (end + length t) (length (disk_space s))"
  shows "\<exists>s'. write s f t = Inr (Str ''Content written to file.'', s') \<and>
           map_of (fat_table s') f = Some (start, new_end) \<and>
           next_free_space s' = new_end \<and>
           disk_space s' = py_set_slice (disk_space s) start new_end
                             (encode (py_prefix t (int new_end - int start))) \<and>
           (start \<le> end \<and> end \<le> length (disk_space s) \<longrightarrow>
              disk_space s' = take start (disk_space s) @ encode (take (new_end - start) t)
                                @ drop new_end (disk_space s))"
proof -
  have "start \<le> end \<Longrightarrow> end \<le> length (disk_space s) \<Longrightarrow>
        py_set_slice (disk_space s) start new_end
          (encode (py_prefix t (int new_end - int start))) =
        take start (disk_space s) @ encode (take (new_end - start) t)
          @ drop new_end (disk_space s)"
    using assms(4)
    by (auto simp add: py_set_slice_def py_prefix_def Let_def min_def max_def nat_diff_distrib)
  then show ?thesis
    using assms by (simp add: write_def Let_def AList.update_conv')
qed

text \<open>
  Claim C4. \<open>append\<close> computes \<open>newEnd = min(end + len(bytes), bufferSize)\<close>, writes
  the bytes, truncated if they would overflow the buffer, into \<open>buffer[start:newEnd]\<close>,
  sets the record to \<open>(start, newEnd)\<close> and the cursor to \<open>newEnd\<close>. The program does
  not append: the second \<open>write\<close> of two characters to a file that holds \<open>ab\<close> sets
  the record to \<open>(0, 4)\<close> and replaces the four bytes of \<open>disk_space[0:4]\<close> by the two
  bytes of the new text. The buffer of 1048576 bytes has 1048574 afterwards, and the
  range of the record holds \<open>cd\<close> and two zero bytes, not the content \<open>abcd\<close> of the
  file.
\<close>

theorem C4_second_write_shrinks_buffer:
  "map_sum id snd (main_loop init
     [''register u p'', ''login u p'', ''create f'', ''open f'', ''write f ab'',
      ''write f cd'']) = Inr rewritten \<and>
   length (disk_space init) = 1048576 \<and>
   length (disk_space rewritten) = 1048574 \<and>
   map_of (fat_table rewritten) ''f'' = Some (0, 4) \<and>
   next_free_space rewritten = 4 \<and>
   py_slice (disk_space rewritten) 0 4 = [99, 100] @ replicate 2 0 \<and>
   read rewritten ''f'' = Inr (Str ''abcd'', rewritten)"
proof -
  have "map_sum id snd (main_loop init
     [''register u p'', ''login u p'', ''create f'', ''open f'', ''write f ab'',
      ''write f cd'']) = Inr rewritten"
    by (simp add: eval_defs rewritten_def py_set_slice_def py_prefix_def
        encode_def encode_char_def)
  moreover have "length (disk_space init) = 1048576" "length (disk_space rewritten) = 1048574"
    "map_of (fat_table rewritten) ''f'' = Some (0, 4)" "next_free_space rewritten = 4"
    "py_slice (disk_space rewritten) 0 4 = [99, 100] @ replicate 2 0"
    "read rewritten ''f'' = Inr (Str ''abcd'', rewritten)"
    by (simp_all add: init_def rewritten_def py_slice_def read_def heap_get_def)
  ultimately show ?thesis by blast
qed

text \<open>
  What \<open>delete\<close> does to the allocation table and the buffer. In a reachable state, for
  a name \<open>f\<close> of the working directory with a record \<open>(start, end)\<close> where
  \<open>start \<le> end\<close>, \<open>delete(f)\<close> returns, replaces the slice \<open>[start:end]\<close> of the
  buffer by \<open>end - start\<close> zero bytes, so that these positions read back as zero,
  removes the record of \<open>f\<close> and sets the cursor to \<open>start\<close>. When the record lies
  in the buffer, the buffer keeps its length. This is a fact of the model, in which
  \<open>show_fat_table\<close> always has fuel for the whole tree: in the interpreter the call of
  \<open>show_fat_table\<close> inside \<open>delete\<close> raises \<open>RecursionError\<close> when the tree of
  the user is deeper than the limit on the depth of calls (1000 by default).
\<close>

lemma delete_releases:
  assumes "reachable s"
    and "current_children s = Inr (d, ch)" and "f \<in> fst ` set ch"
    and "map_of (fat_table s) f = Some (start, end)"
    and "start \<le> end"
  shows "\<exists>s'. delete s f = Inr (Str (''File '' @ quoted f @ '' deleted.''), s') \<and>
           map_of (fat_table s') f = None \<and>
           next_free_space s' = start \<and>
           disk_space s' = py_set_slice (disk_space s) start end (replicate (end - start) 0) \<and>
           set (py_slice (disk_space s') start end) \<subseteq> {0} \<and>
           (end \<le> length (disk_space s) \<longrightarrow>
              py_slice (disk_space s') start end = replicate (end - start) 0 \<and>
              length (disk_space s') = length (disk_space s))"
proof -
  let ?s' = "s\<lparr> heap := (heap s)[d := Dir (AList.delete f ch)],
                 disk_space := py_set_slice (disk_space s) start end
                                 (replicate (end - start) 0),
                 next_free_space := start,
                 fat_table := AList.delete f (fat_table s) \<rparr>"
  from reachable_well_formed [OF assms(1)] have w: "well_formed s" .
  from assms(2) have "current_dir s = Some d" by (simp add: current_children_Inr)
  with session_ok_logged_in [OF well_formedD(7) [OF w]]
  obtain u where u: "current_user s = Some u" by blast
  have "delete s f = Inr (Str (''File '' @ quoted f @ '' deleted.''), ?s') \<or>
        (\<exists>e. delete s f = Inl e)"
    using assms(2-5) by (simp add: delete_def Let_def split: sum.splits)
  moreover have "\<not> (\<exists>e. delete s f = Inl e)"
  proof
    assume "\<exists>e. delete s f = Inl e"
    then obtain e where e: "delete s f = Inl e" ..
    with assms(2-5) have "show_fat_table ?s' = Inl e"
      by (simp add: delete_def Let_def split: sum.splits)
    moreover have "well_formed ?s'"
    proof (rule del_child_wf [OF w assms(2)])
      show "distinct (map fst (fat_table ?s'))"
        using well_formedD(6) [OF w] by (simp add: AList.distinct_delete)
    qed simp_all
    from show_fat_table_returns [OF this, of u] u
    have "\<exists>rows. show_fat_table ?s' = Inr rows" by simp
    ultimately show False by auto
  qed
  ultimately have "delete s f = Inr (Str (''File '' @ quoted f @ '' deleted.''), ?s')"
    by blast
  moreover have "map_of (fat_table ?s') f = None"
    by (simp add: AList.delete_conv')
  moreover note zero_fill [OF assms(5), of "disk_space s" 0]
    zero_fill_inside [OF assms(5), of "disk_space s" 0]
  ultimately show ?thesis by (intro exI [of _ ?s']) simp
qed

lemma delete_releases_with_file:
  "\<exists>s'. delete with_file ''f'' = Inr (Str (''File '' @ quoted ''f'' @ '' deleted.''), s') \<and>
      map_of (fat_table s') ''f'' = None \<and>
      next_free_space s' = 0 \<and>
      py_slice (disk_space s') 0 2 = replicate 2 0 \<and>
      length (disk_space s') = length (disk_space with_file)"
proof -
  have h: "current_children with_file = Inr (0, [(''f'', 1)])"
    "''f'' \<in> fst ` set [(''f'', 1 :: addr)]"
    "map_of (fat_table with_file) ''f'' = Some (0, 2)" "(0 :: nat) \<le> 2"
    by (simp_all add: with_file_def current_children_def heap_get_def)
  have l: "2 \<le> length (disk_space with_file)"
    by (simp add: with_file_def)
  from delete_releases [OF reachable_with_file h] l show ?thesis
    by auto
qed

text \<open>
  Claim C5. For every file \<open>f\<close> of the working directory with record
  \<open>(start, end)\<close>, \<open>delete(f)\<close> fills \<open>buffer[start:end]\<close> with zeros, removes the
  record and sets the cursor to \<open>start\<close>. The program does not for a record with
  \<open>end < start\<close>, where \<open>bytearray\<close> of a negative size raises \<open>ValueError\<close>.
  Such a record is reachable: the second \<open>write\<close> to \<open>f\<close> shortens the buffer below
  the start of the empty file \<open>g\<close>, and the \<open>write\<close> to \<open>g\<close> clips the end of
  its record to the length of the buffer.
\<close>

theorem C5_delete_inverted_record_raises:
  "map_sum id snd (main_loop init
     [''register u p'', ''login u p'', ''create f'', ''open f'',
      ''write f '' @ replicate 524289 CHR ''a'', ''create g'', ''write f x'',
      ''open g'', ''write g y'']) = Inr inverted \<and>
   current_children inverted = Inr (0, [(''f'', 1), (''g'', 2)]) \<and>
   map_of (fat_table inverted) ''g'' = Some (524289, 524287) \<and>
   delete inverted ''g'' = Inl ValueError"
proof -
  have "map_sum id snd (main_loop init
     [''register u p'', ''login u p'', ''create f'', ''open f'',
      ''write f '' @ replicate 524289 CHR ''a'', ''create g'', ''write f x'',
      ''open g'', ''write g y'']) = Inr inverted"
    by (simp add: eval_defs inverted_def py_set_slice_def py_prefix_def
        split_acc_replicate encode_replicate_ascii encode_def encode_char_def)
  moreover have "current_children inverted = Inr (0, [(''f'', 1), (''g'', 2)])"
    "map_of (fat_table inverted) ''g'' = Some (524289, 524287)"
    "delete inverted ''g'' = Inl ValueError"
    by (simp_all add: inverted_def current_children_def heap_get_def delete_def)
  ultimately show ?thesis by blast
qed

text \<open>
  Claim C6. \<open>cd("..")\<close> with an empty path returns the message that the working
  directory is the root and leaves the state, so the working directory and the path, as
  they are. With a path that is not empty, in a reachable state, it removes the last
  element of the path and the working directory becomes the directory that the walk
  from the root of the user along the new path ends in.
\<close>

theorem C6_cd_parent:
  "(path s = [] \<longrightarrow> cd s ''..'' = Inr (Str ''Already at the root directory.'', s)) \<and>
   (path s \<noteq> [] \<and> reachable s \<longrightarrow>
      (\<exists>u acct d'. current_user s = Some u \<and> map_of (root s) u = Some acct \<and>
         walk (heap s) (FAT acct) (butlast (path s)) = Inr d' \<and>
         cd s ''..'' = Inr (Str ''Returned to the parent directory.'',
                           s\<lparr> path := butlast (path s), current_dir := Some d' \<rparr>)))"
proof (intro conjI impI)
  assume "path s = []"
  then show "cd s ''..'' = Inr (Str ''Already at the root directory.'', s)"
    by (simp add: cd_def)
next
  assume "path s \<noteq> [] \<and> reachable s"
  then have "path s \<noteq> []" "well_formed s" by (simp_all add: reachable_well_formed)
  from cd_parent [OF this(2,1)]
  show "\<exists>u acct d'. current_user s = Some u \<and> map_of (root s) u = Some acct \<and>
         walk (heap s) (FAT acct) (butlast (path s)) = Inr d' \<and>
         cd s ''..'' = Inr (Str ''Returned to the parent directory.'',
                           s\<lparr> path := butlast (path s), current_dir := Some d' \<rparr>)"
    by blast
qed

theorem C6_cd_parent_witness:
  "path logged_in = [] \<and>
   cd logged_in ''..'' = Inr (Str ''Already at the root directory.'', logged_in) \<and>
   path in_subdir \<noteq> [] \<and> reachable in_subdir \<and>
   cd in_subdir ''..'' = Inr (Str ''Returned to the parent directory.'',
                             in_subdir\<lparr> path := [], current_dir := Some 0 \<rparr>)"
proof -
  have a: "path logged_in = []" by (simp add: logged_in_def)
  have b: "path in_subdir \<noteq> []" by (simp add: in_subdir_def)
  from C6_cd_parent [of logged_in] a
  have 1: "cd logged_in ''..'' = Inr (Str ''Already at the root directory.'', logged_in)"
    by blast
  from C6_cd_parent [of in_subdir] b reachable_in_subdir obtain u acct d' where
    "current_user in_subdir = Some u" "map_of (root in_subdir) u = Some acct"
    "walk (heap in_subdir) (FAT acct) (butlast (path in_subdir)) = Inr d'"
    "cd in_subdir ''..'' = Inr (Str ''Returned to the parent directory.'',
        in_subdir\<lparr> path := butlast (path in_subdir), current_dir := Some d' \<rparr>)"
    by blast
  then have 2: "cd in_subdir ''..'' = Inr (Str ''Returned to the parent directory.'',
                             in_subdir\<lparr> path := [], current_dir := Some 0 \<rparr>)"
    by (auto simp: in_subdir_def)
  from a b 1 2 reachable_in_subdir show ?thesis by blast
qed

text \<open>
  Claim C7, amended. If the first token, in lower case, is not a command name, or it
  is one of \<open>register\<close>, \<open>login\<close> (three tokens), \<open>create\<close>, \<open>del\<close>, \<open>open\<close>,
  \<open>close\<close>, \<open>read\<close>, \<open>cd\<close>, \<open>md\<close>, \<open>rd\<close> (two tokens), \<open>write\<close> (three
  or more) with another number of tokens, the dispatcher returns the generic message and
  leaves the state as it is. \<open>logout\<close>, \<open>dir\<close>, \<open>diskusage\<close> and \<open>showfat\<close>
  run whatever follows them.
\<close>

theorem C7_invalid_command:
  assumes "split command = a # rest"
    and "lower a \<notin> {''diskusage'', ''showfat'', ''logout'', ''dir''}"
    and "lower a \<in> {''register'', ''login''} \<longrightarrow> length rest \<noteq> 2"
    and "lower a \<in> {''create'', ''del'', ''open'', ''close'', ''read'', ''cd'', ''md'', ''rd''}
           \<longrightarrow> length rest \<noteq> 1"
    and "lower a = ''write'' \<longrightarrow> length rest < 2"
  shows "process_command s command =
           Inr (Str ''Invalid command or incorrect number of arguments.'', s)"
proof -
  have n: "length (split command) = Suc (length rest)" "hd (split command) = a"
      "split command \<noteq> []"
    using assms(1) by simp_all
  have a: "\<not> (lower a = ''register'' \<and> Suc (length rest) = 3)"
      "\<not> (lower a = ''login'' \<and> Suc (length rest) = 3)"
      "\<not> (lower a = ''write'' \<and> 3 \<le> Suc (length rest))"
    using assms(3,5) by auto
  have b: "\<not> (lower a = ''create'' \<and> Suc (length rest) = 2)"
      "\<not> (lower a = ''del'' \<and> Suc (length rest) = 2)"
      "\<not> (lower a = ''open'' \<and> Suc (length rest) = 2)"
      "\<not> (lower a = ''close'' \<and> Suc (length rest) = 2)"
      "\<not> (lower a = ''read'' \<and> Suc (length rest) = 2)"
      "\<not> (lower a = ''cd'' \<and> Suc (length rest) = 2)"
      "\<not> (lower a = ''md'' \<and> Suc (length rest) = 2)"
      "\<not> (lower a = ''rd'' \<and> Suc (length rest) = 2)"
    using assms(4) by auto
  have c: "lower a \<noteq> ''diskusage''" "lower a \<noteq> ''showfat''" "lower a \<noteq> ''logout''"
      "lower a \<noteq> ''dir''"
    using assms(2) by auto
  show ?thesis
    unfolding process_command_def Let_def n
    by (simp only: a b c if_False) (simp add: n)
qed

theorem C7_invalid_command_witness:
  "split ''create a b'' = ''create'' # [''a'', ''b''] \<and>
   process_command logged_in ''create a b'' =
     Inr (Str ''Invalid command or incorrect number of arguments.'', logged_in)"
proof -
  have h: "split ''create a b'' = ''create'' # [''a'', ''b'']"
    by (simp add: split_def isspace_def)
  have l: "lower ''create'' = ''create''"
    by (simp add: lower_def lower_char_def)
  from C7_invalid_command [OF h, of logged_in] h show ?thesis
    by (simp add: l)
qed

text \<open>
  Claim C7 as stated fails: \<open>logout\<close> followed by another token is not rejected, it
  logs the user out.
\<close>

theorem C7_extra_token_counterexample:
  "map_sum id fst (main_loop init [''register u p'', ''login u p'', ''logout now'']) =
     Inr [Str (''User '' @ quoted ''u'' @ '' registered successfully.''),
          Str (''User '' @ quoted ''u'' @ '' logged in successfully.''),
          Str (''User '' @ quoted ''u'' @ '' logged out successfully.'')]"
  by (simp add: eval_defs)






text \<open>
  Claim C10. \<open>delete\<close> leaves the open-file table as it is: when \<open>delete(f)\<close>
  succeeds on a file that is open, \<open>f\<close> is still open afterwards, \<open>read(f)\<close> returns
  the content it returned before, and \<open>close(f)\<close> succeeds.
\<close>

theorem C10_delete_keeps_open_file:
  assumes "delete s f = Inr (Str (''File '' @ quoted f @ '' deleted.''), s')"
    and "map_of (open_files s) f = Some a"
    and "read s f = Inr (Str c, s)"
  shows "open_files s' = open_files s \<and>
         read s' f = Inr (Str c, s') \<and>
         close s' f = Inr (Str (''File '' @ quoted f @ '' closed.''),
                           s'\<lparr> open_files := AList.delete f (open_files s') \<rparr>)"
proof -
  from assms(2) have mem: "f \<in> fst ` set (open_files s)"
    by (metis domI dom_map_of_conv_image_fst)
  from assms(2,3) have node: "a < length (heap s)" "heap s ! a = File c"
    by (auto simp: read_def heap_get_def split: if_splits option.splits node.splits)
  from assms(1) obtain d ch where cc: "current_children s = Inr (d, ch)"
    by (auto simp: delete_def split: sum.splits)
  then have d: "d < length (heap s)" "heap s ! d = Dir ch"
    by (auto simp: current_children_def heap_get_def split: option.splits if_splits node.splits)
  with node have ne: "a \<noteq> d" by auto
  from assms(1) cc have s': "open_files s' = open_files s"
      "heap s' = (heap s)[d := Dir (AList.delete f ch)]"
    by (auto simp: delete_def quoted_def Let_def split: if_splits option.splits sum.splits)
  show ?thesis
    using s' mem node ne assms(2)
    by (simp add: read_def close_def heap_get_def)
qed

theorem C10_delete_keeps_open_file_witness:
  "\<exists>s'. delete with_file ''f'' = Inr (Str (''File '' @ quoted ''f'' @ '' deleted.''), s') \<and>
     map_of (open_files with_file) ''f'' = Some 1 \<and>
     read with_file ''f'' = Inr (Str ''ab'', with_file) \<and>
     open_files s' = [(''f'', 1)] \<and>
     read s' ''f'' = Inr (Str ''ab'', s') \<and>
     close s' ''f'' = Inr (Str (''File '' @ quoted ''f'' @ '' closed.''),
                          s'\<lparr> open_files := AList.delete ''f'' (open_files s') \<rparr>)"
proof -
  have "\<exists>s'. delete with_file ''f'' = Inr (Str (''File '' @ quoted ''f'' @ '' deleted.''), s')"
    by (simp add: delete_def current_children_def heap_get_def with_file_def Let_def
        show_fat_table_def)
  then obtain s' where
    d: "delete with_file ''f'' = Inr (Str (''File '' @ quoted ''f'' @ '' deleted.''), s')" ..
  have h: "map_of (open_files with_file) ''f'' = Some 1"
    "read with_file ''f'' = Inr (Str ''ab'', with_file)"
    by (simp_all add: with_file_def read_def heap_get_def)
  have o: "open_files with_file = [(''f'', 1)]" by (simp add: with_file_def)
  from C10_delete_keeps_open_file [OF d h] d h o show ?thesis by auto
qed

end
